theory Spec2Isabelle
  imports Complex_Main
begin

section \<open>NumPy scalars\<close>

text \<open>
  A NumPy \<^verbatim>\<open>float64\<close> is either a finite number or one of the three special values.
  A finite value is modelled by the real number it denotes: rounding, overflow of a finite
  operation to infinity and the sign of zero are not modelled. Arithmetic on these scalars
  never raises; an invalid operation gives \<open>NaN\<close> and a division of a non-zero number by
  zero gives an infinity (NumPy only prints a warning).
\<close>

datatype npfloat = Fin real | PInf | NInf | NaN

datatype py_error = ZeroDivisionError | IndexError

definition inf_of_sign :: "real \<Rightarrow> npfloat" where
  "inf_of_sign s = (if s = 0 then NaN else if 0 < s then PInf else NInf)"

fun sgnf :: "npfloat \<Rightarrow> real" where
  "sgnf (Fin a) = sgn a"
| "sgnf PInf = 1"
| "sgnf NInf = - 1"
| "sgnf NaN = 0"

fun fneg :: "npfloat \<Rightarrow> npfloat" where
  "fneg (Fin a) = Fin (- a)"
| "fneg PInf = NInf"
| "fneg NInf = PInf"
| "fneg NaN = NaN"

definition fadd :: "npfloat \<Rightarrow> npfloat \<Rightarrow> npfloat" where
  "fadd x y =
     (case x of
        Fin a \<Rightarrow> (case y of Fin b \<Rightarrow> Fin (a + b) | _ \<Rightarrow> y)
      | PInf \<Rightarrow> (case y of NInf \<Rightarrow> NaN | NaN \<Rightarrow> NaN | _ \<Rightarrow> PInf)
      | NInf \<Rightarrow> (case y of PInf \<Rightarrow> NaN | NaN \<Rightarrow> NaN | _ \<Rightarrow> NInf)
      | NaN \<Rightarrow> NaN)"

definition fmul :: "npfloat \<Rightarrow> npfloat \<Rightarrow> npfloat" where
  "fmul x y =
     (case x of
        NaN \<Rightarrow> NaN
      | Fin a \<Rightarrow> (case y of Fin b \<Rightarrow> Fin (a * b) | NaN \<Rightarrow> NaN
                  | _ \<Rightarrow> inf_of_sign (sgn a * sgnf y))
      | _ \<Rightarrow> (case y of NaN \<Rightarrow> NaN | _ \<Rightarrow> inf_of_sign (sgnf x * sgnf y)))"

definition fdiv :: "npfloat \<Rightarrow> npfloat \<Rightarrow> npfloat" where
  "fdiv x y =
     (case x of
        NaN \<Rightarrow> NaN
      | Fin a \<Rightarrow> (case y of Fin b \<Rightarrow> (if b = 0 then inf_of_sign a else Fin (a / b))
                  | NaN \<Rightarrow> NaN | _ \<Rightarrow> Fin 0)
      | _ \<Rightarrow> (case y of Fin b \<Rightarrow> inf_of_sign (sgnf x * (if 0 \<le> b then 1 else - 1))
               | _ \<Rightarrow> NaN))"

fun fceil :: "npfloat \<Rightarrow> npfloat" where
  "fceil (Fin a) = Fin (of_int \<lceil>a\<rceil>)"
| "fceil x = x"

definition fsqrt :: "real \<Rightarrow> npfloat" where
  "fsqrt a = (if a < 0 then NaN else Fin (sqrt a))"

text \<open>
  \<^verbatim>\<open>x.astype(int)\<close> truncates towards zero. For a value that has no \<^verbatim>\<open>int64\<close> (NaN, an
  infinity, a number out of range) the result is the machine's and not NumPy's: x86-64
  answers the smallest \<^verbatim>\<open>int64\<close> whatever the value, ARM64 answers 0 for NaN and the nearest
  \<^verbatim>\<open>int64\<close> otherwise. What the machine answers is the parameter \<open>cast_invalid\<close> of the
  model.
\<close>

definition int64_min :: int where
  "int64_min = - (2 ^ 63)"

definition int64_max :: int where
  "int64_max = 2 ^ 63 - 1"

definition trunc :: "real \<Rightarrow> int" where
  "trunc a = (if 0 \<le> a then \<lfloor>a\<rfloor> else \<lceil>a\<rceil>)"

definition astype_int :: "(npfloat \<Rightarrow> int) \<Rightarrow> npfloat \<Rightarrow> int" where
  "astype_int cast_invalid x =
     (case x of
        Fin a \<Rightarrow> if int64_min \<le> trunc a \<and> trunc a \<le> int64_max then trunc a else cast_invalid x
      | _ \<Rightarrow> cast_invalid x)"

definition cast_x86_64 :: "npfloat \<Rightarrow> int" where
  "cast_x86_64 x = int64_min"


text \<open>\<^verbatim>\<open>np.mean\<close> and \<^verbatim>\<open>np.std(., ddof = 1)\<close> of a vector of finite numbers.\<close>

definition np_mean :: "real list \<Rightarrow> npfloat" where
  "np_mean xs = (if xs = [] then NaN else Fin (sum_list xs / real (length xs)))"

definition np_std_ddof1 :: "real list \<Rightarrow> npfloat" where
  "np_std_ddof1 xs =
     (if length xs \<le> 1 then NaN
      else Fin (sqrt (sum_list (map (\<lambda>y. (y - sum_list xs / real (length xs))\<^sup>2) xs)
                      / (real (length xs) - 1))))"

section \<open>The adaptive mean estimator\<close>

text \<open>
  \<^verbatim>\<open>
  def meanMC_CLT(inputRandomFuc,absTol,relTol,alpha):
      nsig = 1000
      inflate = 1.2
      YY = inputRandomFuc(nsig)
      sigma  = np.std(YY,ddof = 1)
      hum = np.mean(YY)
      sigmaUpBound = sigma * inflate
      nmu = max(1, np.power(np.ceil(stats.norm.ppf(1-alpha/2)*sigmaUpBound
                                    /max(absTol,relTol)),2).astype(int) )
      mu = np.mean(inputRandomFuc(nmu))
      nSample = nsig + nmu
      return mu, nSample
  \<close>
  The sampling function draws from a random source; the source is the state \<open>'g\<close> that
  every call takes and returns. \<^verbatim>\<open>stats.norm.ppf\<close> is a library function and a parameter
  of the model, as is the machine's conversion \<open>cast_invalid\<close>.
\<close>

definition sample_size :: "(npfloat \<Rightarrow> int) \<Rightarrow> npfloat \<Rightarrow> npfloat \<Rightarrow> real \<Rightarrow> int" where
  "sample_size cast_invalid z sigmaUpBound tol =
     max 1 (astype_int cast_invalid
              (let c = fceil (fdiv (fmul z sigmaUpBound) (Fin tol)) in fmul c c))"

definition meanMC_CLT ::
  "(npfloat \<Rightarrow> int) \<Rightarrow> (real \<Rightarrow> npfloat) \<Rightarrow> (nat \<Rightarrow> 'g \<Rightarrow> real list \<times> 'g)
     \<Rightarrow> real \<Rightarrow> real \<Rightarrow> real \<Rightarrow> 'g \<Rightarrow> (npfloat \<times> int) \<times> 'g" where
  "meanMC_CLT cast_invalid norm_ppf inputRandomFuc absTol relTol alpha g0 =
     (let nsig = 1000;
          inflate = 12 / 10;
          (YY, g1) = inputRandomFuc nsig g0;
          sigma = np_std_ddof1 YY;
          hum = np_mean YY;
          sigmaUpBound = fmul sigma (Fin inflate);
          nmu = sample_size cast_invalid (norm_ppf (1 - alpha / 2)) sigmaUpBound
                  (max absTol relTol);
          (Y2, g2) = inputRandomFuc (nat nmu) g1;
          mu = np_mean Y2;
          nSample = int nsig + nmu
      in ((mu, nSample), g2))"

text \<open>
  The sample size the specification asks for: the ceiling of the squared quantity.
\<close>

definition nMu_spec :: "real \<Rightarrow> real \<Rightarrow> real \<Rightarrow> int" where
  "nMu_spec z sigmaUpBound tol = max 1 \<lceil>(z * sigmaUpBound / tol)\<^sup>2\<rceil>"

section \<open>The binomial distribution of SciPy\<close>

text \<open>
  \<^verbatim>\<open>stats.binom.cdf(k, n, p)\<close> is the probability of at most \<open>k\<close> successes in \<open>n\<close> trials
  of success probability \<open>p\<close>, the sum of the probabilities of \<open>0, \<dots>, k\<close> successes; SciPy
  gives NaN when \<open>n < 0\<close> or \<open>p\<close> is outside \<open>[0, 1]\<close>.
\<close>

definition BinomPMF :: "nat \<Rightarrow> nat \<Rightarrow> real \<Rightarrow> real" where
  "BinomPMF i n p = real (n choose i) * p ^ i * (1 - p) ^ (n - i)"

definition BinomCDF :: "nat \<Rightarrow> nat \<Rightarrow> real \<Rightarrow> real" where
  "BinomCDF k n p = (\<Sum>i\<le>k. BinomPMF i n p)"

definition binom_cdf :: "int \<Rightarrow> int \<Rightarrow> real \<Rightarrow> npfloat" where
  "binom_cdf k n p =
     (if n < 0 \<or> p < 0 \<or> 1 < p then NaN
      else if k < 0 then Fin 0
      else Fin (BinomCDF (nat k) (nat n) p))"

text \<open>
  \<^verbatim>\<open>stats.binom.ppf(q, n, p)\<close> is the smallest \<open>k\<close> whose cumulative probability reaches
  \<open>q\<close>. The search below looks at \<open>0, 1, \<dots>, n - 1\<close> in turn and answers \<open>n\<close> when none of
  them does. SciPy gives \<open>-1\<close> at \<open>q = 0\<close>, \<open>n\<close> at \<open>q = 1\<close> and NaN for any other \<open>q\<close>
  outside \<open>(0, 1)\<close> and for invalid \<open>n\<close> or \<open>p\<close>.
\<close>

primrec search_up :: "(nat \<Rightarrow> bool) \<Rightarrow> nat \<Rightarrow> nat \<Rightarrow> nat" where
  "search_up P 0 k = k"
| "search_up P (Suc m) k = (if P k then k else search_up P m (Suc k))"

definition BinomQuantile :: "real \<Rightarrow> nat \<Rightarrow> real \<Rightarrow> nat" where
  "BinomQuantile q n p = search_up (\<lambda>k. q \<le> BinomCDF k n p) n 0"

definition binom_ppf :: "real \<Rightarrow> int \<Rightarrow> real \<Rightarrow> npfloat" where
  "binom_ppf q n p =
     (if q = 0 then Fin (- 1)
      else if n < 0 \<or> p < 0 \<or> 1 < p \<or> q < 0 \<or> 1 < q then NaN
      else if q = 1 then Fin (real_of_int n)
      else Fin (real (BinomQuantile q (nat n) p)))"

section \<open>The binomial proportion interval\<close>

text \<open>
  \<^verbatim>\<open>
  def binomialCI(ntot,nsuc,alpha):
     obsprob=nsuc/ntot
     al2=alpha/2
     if nsuc==0:
        plo=0
     else:
        plo=fsolve(lambda x: stats.binom.cdf(nsuc-1,ntot,x)-1+al2, obsprob)[0]
     if nsuc==ntot:
        pup=1
     else:
        pup=fsolve(lambda x: stats.binom.cdf(nsuc,ntot,x)-al2,obsprob)[0]
     exactci=np.array([plo,pup])
     cltci= obsprob+ np.array([-1,1])*(-stats.norm.ppf(al2)*np.sqrt(obsprob*(1-obsprob))
                                       /np.sqrt(ntot))
     return exactci,cltci
  \<close>
  \<open>ntot\<close> and \<open>nsuc\<close> are Python integers, so that \<^verbatim>\<open>nsuc/ntot\<close> raises when \<open>ntot\<close> is
  zero. The two functions handed to the solver get names. \<^verbatim>\<open>scipy.optimize.fsolve\<close> and
  \<^verbatim>\<open>stats.norm.ppf\<close> are library functions and parameters of the model; \<^verbatim>\<open>fsolve\<close> does not
  raise when it fails to converge, it returns its last iterate. The instances below run
  the model with the first iteration of the solver, which the next section describes.
\<close>

definition lower_equation :: "int \<Rightarrow> int \<Rightarrow> real \<Rightarrow> real \<Rightarrow> npfloat" where
  "lower_equation nsuc ntot al2 x = fadd (fadd (binom_cdf (nsuc - 1) ntot x) (Fin (- 1))) (Fin al2)"

definition upper_equation :: "int \<Rightarrow> int \<Rightarrow> real \<Rightarrow> real \<Rightarrow> npfloat" where
  "upper_equation nsuc ntot al2 x = fadd (binom_cdf nsuc ntot x) (Fin (- al2))"

definition binomialCI ::
  "((real \<Rightarrow> npfloat) \<Rightarrow> real \<Rightarrow> npfloat) \<Rightarrow> (real \<Rightarrow> npfloat) \<Rightarrow> int \<Rightarrow> int \<Rightarrow> real
     \<Rightarrow> py_error + (npfloat \<times> npfloat) \<times> (npfloat \<times> npfloat)" where
  "binomialCI fsolve norm_ppf ntot nsuc alpha =
     (if ntot = 0 then Inl ZeroDivisionError
      else
        let obsprob = real_of_int nsuc / real_of_int ntot;
            al2 = alpha / 2;
            plo = (if nsuc = 0 then Fin 0
                   else fsolve (lower_equation nsuc ntot al2) obsprob);
            pup = (if nsuc = ntot then Fin 1
                   else fsolve (upper_equation nsuc ntot al2) obsprob);
            exactci = (plo, pup);
            h = fdiv (fmul (fneg (norm_ppf al2)) (fsqrt (obsprob * (1 - obsprob))))
                     (fsqrt (real_of_int ntot));
            cltci = (fadd (Fin obsprob) (fmul (Fin (- 1)) h),
                     fadd (Fin obsprob) (fmul (Fin 1) h))
        in Inr (exactci, cltci))"

text \<open>
  What the solver is expected to deliver: a finite number strictly between 0 and 1 at which
  the function it was given is zero.
\<close>

definition root_in_unit :: "(real \<Rightarrow> npfloat) \<Rightarrow> npfloat \<Rightarrow> bool" where
  "root_in_unit F r = (case r of Fin p \<Rightarrow> 0 < p \<and> p < 1 \<and> F p = Fin 0 | _ \<Rightarrow> False)"
section \<open>The solver\<close>

text \<open>
  \<^verbatim>\<open>scipy.optimize.fsolve\<close> hands the function and the start value to MINPACK's
  \<^verbatim>\<open>hybrd\<close>, which knows nothing of the interval \<open>[0, 1]\<close> outside of which the two functions
  above are NaN. \<^verbatim>\<open>hybrd\<close> leaves its current point only for a trial point at which the
  function is smaller in size, and a NaN fails that comparison. On a function \<open>F\<close> of one
  unknown started at \<open>x0\<close>, its first iteration evaluates \<open>F\<close> at three places: at \<open>x0\<close>; at
  \<open>x0 + h\<close> with \<open>h = |x0| / 2^26\<close> (and \<open>h = 1 / 2^26\<close> when \<open>x0 = 0\<close>), for the
  forward-difference slope \<open>J = (F(x0 + h) - F(x0)) / h\<close>; and at the Newton point
  \<open>x0 - F(x0) / J\<close>, when \<open>J\<close> is not zero and \<open>|F(x0)|\<close> is within the first step bound
  \<open>100 \<sqdot> |J \<sqdot> x0|\<close> (100 when \<open>x0 = 0\<close>).

  When one of these three values is not finite, no trial point is ever accepted: a slope
  computed or updated from a NaN is NaN, and a slope computed afresh at \<open>x0\<close> leads to the
  same trial point again. \<^verbatim>\<open>hybrd\<close> stops after ten iterations without progress, and
  \<^verbatim>\<open>fsolve\<close>, which warns and does not raise, returns the start value. It returns the start
  value as well when the function is zero there. What the solver does in every other case,
  from its second iteration on, is not modelled: it is the parameter \<open>later\<close>.
\<close>

definition forward_step :: "real \<Rightarrow> real" where
  "forward_step x0 = (if x0 = 0 then 1 / 2 ^ 26 else \<bar>x0\<bar> / 2 ^ 26)"

definition step_bound :: "real \<Rightarrow> real \<Rightarrow> real" where
  "step_bound J x0 = (if x0 = 0 then 100 else 100 * \<bar>J * x0\<bar>)"

definition fsolve_minpack ::
  "((real \<Rightarrow> npfloat) \<Rightarrow> real \<Rightarrow> npfloat) \<Rightarrow> (real \<Rightarrow> npfloat) \<Rightarrow> real \<Rightarrow> npfloat" where
  "fsolve_minpack later F x0 =
     (case F x0 of
        Fin f0 \<Rightarrow>
          if f0 = 0 then Fin x0
          else (case F (x0 + forward_step x0) of
                  Fin f1 \<Rightarrow>
                    let J = (f1 - f0) / forward_step x0
                    in if J = 0 \<or> step_bound J x0 < \<bar>f0\<bar> then later F x0
                       else (case F (x0 - f0 / J) of
                               Fin f2 \<Rightarrow> later F x0
                             | _ \<Rightarrow> Fin x0)
                | _ \<Rightarrow> Fin x0)
      | _ \<Rightarrow> Fin x0)"

section \<open>The quantile interval\<close>

text \<open>
  \<^verbatim>\<open>
  def quantileCI(quant,Xsample,extremes,alpha):
     n = len(Xsample)
     Xorder = np.zeros(n+2)
     Xorder[0] = extremes[0]
     Xorder[1:n+1] = sorted(Xsample)
     Xorder[n+1] = extremes[1]
     al2 = alpha/2
     lo = 1+stats.binom.ppf(al2,n,quant);
     up = 2+stats.binom.ppf(1-al2,n,quant);
     quantci=np.array([Xorder[lo.astype(int)],Xorder[up.astype(int)]])
     return quantci
  \<close>
  Reading a NumPy array at an integer position counts a negative position from the end and
  raises \<^verbatim>\<open>IndexError\<close> outside the array; \<open>in_bounds\<close> says which positions an array of
  a given length has.
\<close>

definition np_index :: "real list \<Rightarrow> int \<Rightarrow> py_error + real" where
  "np_index xs i =
     (let n = int (length xs);
          j = (if i < 0 then i + n else i)
      in if 0 \<le> j \<and> j < n then Inr (xs ! nat j) else Inl IndexError)"

definition in_bounds :: "nat \<Rightarrow> int \<Rightarrow> bool" where
  "in_bounds len i = (- int len \<le> i \<and> i < int len)"

definition assign_slice :: "real list \<Rightarrow> nat \<Rightarrow> real list \<Rightarrow> real list" where
  "assign_slice xs i ys = take i xs @ ys @ drop (i + length ys) xs"

definition order_array :: "real list \<Rightarrow> real \<times> real \<Rightarrow> real list" where
  "order_array Xsample extremes =
     (let n = length Xsample;
          X0 = replicate (n + 2) 0;
          X1 = X0[0 := fst extremes];
          X2 = assign_slice X1 1 (sort Xsample)
      in X2[n + 1 := snd extremes])"

definition quantileCI ::
  "(npfloat \<Rightarrow> int) \<Rightarrow> real \<Rightarrow> real list \<Rightarrow> real \<times> real \<Rightarrow> real \<Rightarrow> py_error + real \<times> real" where
  "quantileCI cast_invalid quant Xsample extremes alpha =
     (let n = length Xsample;
          Xorder = order_array Xsample extremes;
          al2 = alpha / 2;
          lo = fadd (Fin 1) (binom_ppf al2 (int n) quant);
          up = fadd (Fin 2) (binom_ppf (1 - al2) (int n) quant)
      in case np_index Xorder (astype_int cast_invalid lo) of
           Inl e \<Rightarrow> Inl e
         | Inr a \<Rightarrow> (case np_index Xorder (astype_int cast_invalid up) of
                       Inl e \<Rightarrow> Inl e
                     | Inr b \<Rightarrow> Inr (a, b)))"

text \<open>
  The quantile interval as the specification words it: the same two positions, clamped to
  the nearest valid position of the order array.
\<close>

definition clamp_index :: "nat \<Rightarrow> int \<Rightarrow> nat" where
  "clamp_index n i = nat (max 0 (min (int n + 1) i))"

definition quantileInterval_spec :: "real \<Rightarrow> real list \<Rightarrow> real \<times> real \<Rightarrow> real \<Rightarrow> real \<times> real" where
  "quantileInterval_spec quant Xsample extremes alpha =
     (let n = length Xsample;
          Xorder = fst extremes # sort Xsample @ [snd extremes];
          lowerIndex = 1 + int (BinomQuantile (alpha / 2) n quant);
          upperIndex = 2 + int (BinomQuantile (1 - alpha / 2) n quant)
      in (Xorder ! clamp_index n lowerIndex, Xorder ! clamp_index n upperIndex))"

section \<open>Inputs for the examples\<close>

text \<open>
  A stand-in for \<^verbatim>\<open>stats.norm.ppf\<close>: a table of its values, rounded to two decimals, at
  the levels the examples use (\<open>\<Phi>\<^sup>-\<^sup>1(0.975) = 1.95996\<dots>\<close>, \<open>\<Phi>\<^sup>-\<^sup>1(0.4375) = -0.1573\<dots>\<close>). The
  examples are chosen so that the rounding changes no result. Outside \<open>[0, 1]\<close> SciPy
  gives NaN, at 0 and 1 the infinities; a level that is not in the table is answered NaN
  here, and no example asks for one.
\<close>

definition norm_ppf_2dp :: "real \<Rightarrow> npfloat" where
  "norm_ppf_2dp q =
     (if q < 0 \<or> 1 < q then NaN
      else if q = 0 then NInf
      else if q = 1 then PInf
      else if q = 1 / 40 then Fin (- (49 / 25))
      else if q = 39 / 40 then Fin (49 / 25)
      else if q = 7 / 16 then Fin (- (4 / 25))
      else if q = 1 / 2 then Fin 0
      else NaN)"

text \<open>Two deterministic sampling functions: a constant one, and one whose pilot sample of
  1000 values has mean 0 and standard deviation exactly 2.\<close>

definition const_sampler :: "real \<Rightarrow> nat \<Rightarrow> unit \<Rightarrow> real list \<times> unit" where
  "const_sampler c n g = (replicate n c, g)"

definition spread_sampler :: "nat \<Rightarrow> unit \<Rightarrow> real list \<times> unit" where
  "spread_sampler n g = (take n ([44, - 44, 7, - 7, 3, - 3, 2, - 2] @ replicate (n - 8) 0), g)"

section \<open>Zero tolerances\<close>

lemma sum_list_replicate_real: "sum_list (replicate n (c::real)) = real n * c"
  by (induction n) (simp_all add: algebra_simps)







lemma meanMC_CLT_unfold:
  "meanMC_CLT cast norm_ppf f absTol relTol alpha g0 =
     ((np_mean (fst (f (nat (sample_size cast (norm_ppf (1 - alpha / 2))
                               (fmul (np_std_ddof1 (fst (f 1000 g0))) (Fin (12 / 10)))
                               (max absTol relTol))) (snd (f 1000 g0)))),
       1000 + sample_size cast (norm_ppf (1 - alpha / 2))
                (fmul (np_std_ddof1 (fst (f 1000 g0))) (Fin (12 / 10))) (max absTol relTol)),
      snd (f (nat (sample_size cast (norm_ppf (1 - alpha / 2))
                               (fmul (np_std_ddof1 (fst (f 1000 g0))) (Fin (12 / 10)))
                               (max absTol relTol))) (snd (f 1000 g0))))"
  by (simp add: meanMC_CLT_def Let_def split_beta)



section \<open>The second-stage sample size\<close>

lemma trunc_of_int: "trunc (of_int m) = m"
  by (simp add: trunc_def)

lemma astype_int_of_int:
  "int64_min \<le> m \<Longrightarrow> m < 2 ^ 63 \<Longrightarrow> astype_int cast (Fin (of_int m)) = m"
  by (simp add: astype_int_def trunc_of_int int64_max_def)

lemma sample_size_finite:
  assumes "tol \<noteq> 0" and "\<lceil>z * s / tol\<rceil>\<^sup>2 < 2 ^ 63"
  shows "sample_size cast (Fin z) (Fin s) tol = max 1 (\<lceil>z * s / tol\<rceil>\<^sup>2)"
proof -
  have sq: "of_int \<lceil>z * s / tol\<rceil> * (of_int \<lceil>z * s / tol\<rceil> :: real) = of_int (\<lceil>z * s / tol\<rceil>\<^sup>2)"
    by (simp add: power2_eq_square)
  have "int64_min \<le> \<lceil>z * s / tol\<rceil>\<^sup>2"
    by (rule order_trans [of _ 0]) (simp_all add: int64_min_def)
  then have "astype_int cast (Fin (of_int (\<lceil>z * s / tol\<rceil>\<^sup>2))) = \<lceil>z * s / tol\<rceil>\<^sup>2"
    using assms(2) by (rule astype_int_of_int)
  then show ?thesis
    using assms(1) by (simp add: sample_size_def Let_def fmul_def fdiv_def sq del: of_int_power)
qed

lemma ceiling_square_le:
  assumes "0 \<le> (x::real)"
  shows "\<lceil>x\<^sup>2\<rceil> \<le> \<lceil>x\<rceil>\<^sup>2"
proof -
  have "x \<le> of_int \<lceil>x\<rceil>" by (rule le_of_int_ceiling)
  with assms have "x\<^sup>2 \<le> (of_int \<lceil>x\<rceil>)\<^sup>2"
    by (intro power_mono) simp_all
  then have "x\<^sup>2 \<le> of_int (\<lceil>x\<rceil>\<^sup>2)" by simp
  then show ?thesis by (simp only: ceiling_le_iff)
qed

lemma sum_list_squares_nonneg: "0 \<le> (\<Sum>y\<leftarrow>ys. (y - (m::real))\<^sup>2)"
  by (induction ys) simp_all

lemma np_std_ddof1_nonneg:
  assumes "np_std_ddof1 ys = Fin s"
  shows "0 \<le> s"
proof -
  let ?m = "sum_list ys / real (length ys)"
  from assms have len: "1 < length ys"
    and s: "s = sqrt ((\<Sum>y\<leftarrow>ys. (y - ?m)\<^sup>2) / (real (length ys) - 1))"
    by (simp_all add: np_std_ddof1_def split: if_splits)
  have "0 \<le> (\<Sum>y\<leftarrow>ys. (y - ?m)\<^sup>2) / (real (length ys) - 1)"
    using len by (intro divide_nonneg_nonneg sum_list_squares_nonneg) simp
  then show ?thesis
    unfolding s by (rule real_sqrt_ge_zero)
qed

lemma spread_pilot: "fst (spread_sampler 1000 ()) = [44, - 44, 7, - 7, 3, - 3, 2, - 2] @ replicate 992 0"
  by (simp add: spread_sampler_def)

lemma spread_std: "np_std_ddof1 (fst (spread_sampler 1000 ())) = Fin 2"
proof -
  have "sqrt 4 = 2" by (rule real_sqrt_unique) simp_all
  then show ?thesis
    by (simp add: spread_pilot np_std_ddof1_def sum_list_replicate_real)
qed

text \<open>
  Claim C1, as the code has it. With a positive tolerance, a finite critical value \<open>z\<close> and
  a pilot sample of at least two values, the second-stage sample size is
  \<open>max(1, \<lceil>z \<sqdot> sigmaUpBound / tol\<rceil>\<^sup>2)\<close>: the square of the ceiling, as long as that square is an
  \<^verbatim>\<open>int64\<close>. For \<open>z \<ge> 0\<close> it is never smaller than the specified
  \<open>max(1, \<lceil>(z \<sqdot> sigmaUpBound / tol)\<^sup>2\<rceil>)\<close>.
\<close>

theorem meanMC_CLT_sample_size:
  assumes "0 < max absTol relTol"
    and "norm_ppf (1 - alpha / 2) = Fin z"
    and "np_std_ddof1 (fst (f 1000 g0)) = Fin sigma"
    and "\<lceil>z * (sigma * (12 / 10)) / max absTol relTol\<rceil>\<^sup>2 < 2 ^ 63"
  shows "snd (fst (meanMC_CLT cast norm_ppf f absTol relTol alpha g0)) =
           1000 + max 1 (\<lceil>z * (sigma * (12 / 10)) / max absTol relTol\<rceil>\<^sup>2)
       \<and> (0 \<le> z \<longrightarrow> 1000 + nMu_spec z (sigma * (12 / 10)) (max absTol relTol)
             \<le> snd (fst (meanMC_CLT cast norm_ppf f absTol relTol alpha g0)))"
proof -
  let ?tol = "max absTol relTol"
  let ?x = "z * (sigma * (12 / 10)) / ?tol"
  have tol: "?tol \<noteq> 0" using assms(1) by simp
  have size: "sample_size cast (Fin z) (Fin (sigma * (12 / 10))) ?tol = max 1 (\<lceil>?x\<rceil>\<^sup>2)"
    using tol assms(4) by (rule sample_size_finite)
  have eq: "snd (fst (meanMC_CLT cast norm_ppf f absTol relTol alpha g0)) = 1000 + max 1 (\<lceil>?x\<rceil>\<^sup>2)"
    using size by (simp add: meanMC_CLT_unfold assms(2,3) fmul_def)
  have "nMu_spec z (sigma * (12 / 10)) ?tol \<le> max 1 (\<lceil>?x\<rceil>\<^sup>2)" if "0 \<le> z"
  proof -
    have "0 \<le> sigma" using assms(3) by (rule np_std_ddof1_nonneg)
    with that assms(1) have "0 \<le> ?x" by simp
    then have "\<lceil>?x\<^sup>2\<rceil> \<le> \<lceil>?x\<rceil>\<^sup>2" by (rule ceiling_square_le)
    then show ?thesis unfolding nMu_spec_def by (rule max.mono [OF order_refl])
  qed
  with eq show ?thesis by simp
qed

text \<open>
  Claim C1, an instance: pilot standard deviation 2, tolerance 1, \<open>z = 1.96\<close>.
\<close>

theorem meanMC_CLT_sample_size_witness:
  "0 < max (1::real) 0 \<and> norm_ppf_2dp (1 - (1 / 20) / 2) = Fin (49 / 25)
   \<and> np_std_ddof1 (fst (spread_sampler 1000 ())) = Fin 2
   \<and> \<lceil>49 / 25 * (2 * (12 / 10)) / max 1 0 :: real\<rceil>\<^sup>2 < 2 ^ 63
   \<and> snd (fst (meanMC_CLT cast_x86_64 norm_ppf_2dp spread_sampler 1 0 (1 / 20) ())) = 1000 + max 1 25
   \<and> 1000 + nMu_spec (49 / 25) (2 * (12 / 10)) (max 1 0)
        \<le> snd (fst (meanMC_CLT cast_x86_64 norm_ppf_2dp spread_sampler 1 0 (1 / 20) ()))"
proof -
  have c: "\<lceil>588 / 125 :: real\<rceil> = 5" by (simp add: ceiling_eq_iff)
  have h1: "0 < max (1::real) 0" by simp
  have h2: "norm_ppf_2dp (1 - (1 / 20) / 2) = Fin (49 / 25)" by (simp add: norm_ppf_2dp_def)
  have h4: "\<lceil>49 / 25 * (2 * (12 / 10)) / max 1 0 :: real\<rceil>\<^sup>2 < 2 ^ 63" by (simp add: c)
  show ?thesis
    using meanMC_CLT_sample_size [where cast = cast_x86_64 and norm_ppf = norm_ppf_2dp
        and f = spread_sampler and absTol = 1 and relTol = 0 and alpha = "1 / 20" and ?g0.0 = "()" and z = "49 / 25"
        and sigma = 2] h1 h2 spread_std h4
    by (simp add: c)
qed

text \<open>
  Claim C1 as stated fails: with \<open>z \<sqdot> sigmaUpBound / tol = 4.704\<close> the code draws
  \<open>5\<^sup>2 = 25\<close> values, the specified formula gives \<open>\<lceil>22.13\<rceil> = 23\<close>.
\<close>

theorem meanMC_CLT_square_of_ceiling:
  "snd (fst (meanMC_CLT cast_x86_64 norm_ppf_2dp spread_sampler 1 0 (1 / 20) ())) = 1025
   \<and> 1000 + nMu_spec (49 / 25) (2 * (12 / 10)) (max 1 0) = 1023"
proof -
  have c: "\<lceil>588 / 125 :: real\<rceil> = 5" by (simp add: ceiling_eq_iff)
  have "sample_size cast_x86_64 (Fin (49 / 25)) (Fin (2 * (12 / 10))) 1 = max 1 (\<lceil>49 / 25 * (2 * (12 / 10)) / 1 :: real\<rceil>\<^sup>2)"
    by (rule sample_size_finite) (simp_all add: c)
  then have s: "sample_size cast_x86_64 (Fin (49 / 25)) (Fin (12 / 5)) 1 = 25"
    by (simp add: c)
  have a: "snd (fst (meanMC_CLT cast_x86_64 norm_ppf_2dp spread_sampler 1 0 (1 / 20) ())) = 1025"
    by (simp add: meanMC_CLT_unfold spread_std norm_ppf_2dp_def fmul_def s)
  have b: "nMu_spec (49 / 25) (2 * (12 / 10)) (max 1 0) = 23"
    by (simp add: nMu_spec_def power2_eq_square ceiling_eq_iff)
  from a b show ?thesis by simp
qed

section \<open>The two stages of the estimator\<close>

lemma np_std_ddof1_square:
  assumes "2 \<le> length ys"
  shows "\<exists>s. np_std_ddof1 ys = Fin s \<and> 0 \<le> s
           \<and> s\<^sup>2 * (real (length ys) - 1) = (\<Sum>y\<leftarrow>ys. (y - sum_list ys / real (length ys))\<^sup>2)"
proof -
  let ?m = "sum_list ys / real (length ys)"
  let ?v = "(\<Sum>y\<leftarrow>ys. (y - ?m)\<^sup>2) / (real (length ys) - 1)"
  have v: "0 \<le> ?v"
    using assms by (intro divide_nonneg_nonneg sum_list_squares_nonneg) simp
  have "np_std_ddof1 ys = Fin (sqrt ?v)"
    using assms by (simp add: np_std_ddof1_def)
  moreover have "0 \<le> sqrt ?v" using v by simp
  moreover have "(sqrt ?v)\<^sup>2 * (real (length ys) - 1) = (\<Sum>y\<leftarrow>ys. (y - ?m)\<^sup>2)"
    using assms v by (simp add: real_sqrt_pow2)
  ultimately show ?thesis by blast
qed

lemma sample_size_ge_1: "1 \<le> sample_size cast z s tol"
  by (simp add: sample_size_def)

lemma const_std: "np_std_ddof1 (replicate 1000 c) = Fin 0"
  by (simp add: np_std_ddof1_def sum_list_replicate_real)

text \<open>
  Claim C7. The sampling function is first called with 1000; the standard deviation of
  that pilot sample \<open>s\<close> is the unbiased one, \<open>s\<^sup>2 \<sqdot> (n - 1) = \<Sum> (y - mean)\<^sup>2\<close>; the sample size
  \<open>nmu \<ge> 1\<close> is computed from it; the sampling function is called a second time, with
  \<open>nmu\<close> and the random source the first call left; the estimate is the arithmetic mean of
  that second sample alone, and the reported count is \<open>1000 + nmu\<close>.
\<close>

theorem meanMC_CLT_stages:
  fixes f :: "nat \<Rightarrow> 'g \<Rightarrow> real list \<times> 'g"
  assumes "f 1000 g0 = (YY, g1)"
  shows "\<exists>nmu Y2 g2.
           1 \<le> nmu
         \<and> nmu = sample_size cast (norm_ppf (1 - alpha / 2)) (fmul (np_std_ddof1 YY) (Fin (12 / 10)))
                   (max absTol relTol)
         \<and> f (nat nmu) g1 = (Y2, g2)
         \<and> meanMC_CLT cast norm_ppf f absTol relTol alpha g0 = ((np_mean Y2, 1000 + nmu), g2)
         \<and> (Y2 \<noteq> [] \<longrightarrow> np_mean Y2 = Fin (sum_list Y2 / real (length Y2)))
         \<and> (2 \<le> length YY \<longrightarrow>
              (\<exists>s. np_std_ddof1 YY = Fin s \<and> 0 \<le> s
                 \<and> s\<^sup>2 * (real (length YY) - 1)
                     = (\<Sum>y\<leftarrow>YY. (y - sum_list YY / real (length YY))\<^sup>2)))"
proof -
  define nmu where "nmu = sample_size cast (norm_ppf (1 - alpha / 2))
     (fmul (np_std_ddof1 YY) (Fin (12 / 10))) (max absTol relTol)"
  obtain Y2 g2 where second: "f (nat nmu) g1 = (Y2, g2)"
    by (cases "f (nat nmu) g1")
  have "1 \<le> nmu" unfolding nmu_def by (rule sample_size_ge_1)
  moreover have "meanMC_CLT cast norm_ppf f absTol relTol alpha g0 = ((np_mean Y2, 1000 + nmu), g2)"
    using second unfolding nmu_def by (simp add: meanMC_CLT_unfold assms)
  moreover have "Y2 \<noteq> [] \<longrightarrow> np_mean Y2 = Fin (sum_list Y2 / real (length Y2))"
    by (simp add: np_mean_def)
  moreover note second nmu_def np_std_ddof1_square [of YY]
  ultimately show ?thesis by blast
qed

text \<open>
  Claim C7, an instance: a constant sampling function, tolerance 1.
\<close>

theorem meanMC_CLT_stages_witness:
  "const_sampler 5 1000 () = (replicate 1000 5, ())
   \<and> 2 \<le> length (replicate 1000 (5::real))
   \<and> meanMC_CLT cast_x86_64 norm_ppf_2dp (const_sampler 5) 1 0 (1 / 20) () = ((Fin 5, 1001), ())"
proof -
  have h: "const_sampler 5 1000 () = (replicate 1000 5, ())"
    by (simp add: const_sampler_def)
  have s: "sample_size cast_x86_64 (Fin (49 / 25)) (Fin 0) 1 = 1"
    using sample_size_finite [of 1 "49 / 25" 0] by simp
  from meanMC_CLT_stages [where cast = cast_x86_64 and f = "const_sampler 5" and ?g0.0 = "()"
      and YY = "replicate 1000 5" and ?g1.0 = "()" and norm_ppf = norm_ppf_2dp
      and alpha = "1 / 20" and absTol = 1 and relTol = 0] h
  obtain nmu Y2 g2 where
    n: "nmu = sample_size cast_x86_64 (norm_ppf_2dp (1 - 1 / 20 / 2)) (fmul (np_std_ddof1 (replicate 1000 5)) (Fin (12 / 10))) (max 1 0)"
    and y: "const_sampler 5 (nat nmu) () = (Y2, g2)"
    and r: "meanMC_CLT cast_x86_64 norm_ppf_2dp (const_sampler 5) 1 0 (1 / 20) () = ((np_mean Y2, 1000 + nmu), g2)"
    by blast
  have "nmu = 1"
    unfolding n by (simp add: const_std norm_ppf_2dp_def fmul_def s)
  with y have "Y2 = [5]" and "g2 = ()"
    by (simp_all add: const_sampler_def)
  with r \<open>nmu = 1\<close> h show ?thesis
    by (simp add: np_mean_def)
qed

section \<open>The binomial distribution function\<close>

lemma BinomCDF_0: "BinomCDF 0 n p = (1 - p) ^ n"
  by (simp add: BinomCDF_def BinomPMF_def)

lemma BinomCDF_Suc:
  "BinomCDF (Suc k) n p = BinomCDF k n p + real (n choose Suc k) * p ^ Suc k * (1 - p) ^ (n - Suc k)"
  by (simp add: BinomCDF_def BinomPMF_def)

lemma BinomCDF_at_0: "BinomCDF k n 0 = 1"
  by (induction k) (simp_all add: BinomCDF_0 BinomCDF_Suc)

lemma BinomCDF_at_1: "k < n \<Longrightarrow> BinomCDF k n 1 = 0"
  by (induction k) (simp_all add: BinomCDF_0 BinomCDF_Suc)

lemma BinomCDF_full: "BinomCDF n n p = 1"
proof -
  have "(p + (1 - p)) ^ n = BinomCDF n n p"
    unfolding BinomCDF_def BinomPMF_def by (rule binomial_ring)
  then show ?thesis by simp
qed

lemma BinomCDF_beyond: "n \<le> k \<Longrightarrow> BinomCDF k n p = 1"
proof (induction k)
  case 0
  then show ?case by (simp add: BinomCDF_0)
next
  case (Suc k)
  show ?case
  proof (cases "n = Suc k")
    case True
    then show ?thesis by (simp add: BinomCDF_full)
  next
    case False
    with Suc.prems have "n \<le> k" by simp
    with Suc.IH show ?thesis by (simp add: BinomCDF_Suc)
  qed
qed

lemma BinomCDF_mono_k:
  assumes "0 \<le> p" "p \<le> 1"
  shows "BinomCDF k n p \<le> BinomCDF (Suc k) n p"
  using assms by (simp add: BinomCDF_Suc)

lemma DERIV_pow_times_pow:
  "((\<lambda>p::real. p ^ a * (1 - p) ^ b) has_real_derivative
      (real a * p ^ (a - 1) * (1 - p) ^ b - real b * (p ^ a * (1 - p) ^ (b - 1)))) (at p)"
  by (auto intro!: derivative_eq_intros)

lemma BinomCDF_deriv:
  "(BinomCDF k (Suc (k + m)) has_real_derivative
      - (real (Suc (k + m)) * real ((k + m) choose k) * p ^ k * (1 - p) ^ m)) (at p)"
proof (induction k arbitrary: m)
  case 0
  have "((\<lambda>p. (1 - p) ^ Suc m) has_real_derivative - (real (Suc m) * (1 - p) ^ m)) (at p)"
    using DERIV_pow_times_pow [of 0 "Suc m" p] by simp
  then show ?case
    by (simp add: BinomCDF_0 [abs_def])
next
  case (Suc k)
  define N where "N = Suc (Suc k + m)"
  define X where "X = p ^ k * (1 - p) ^ Suc m"
  define Y where "Y = p ^ Suc k * (1 - p) ^ m"
  define c1 where "c1 = real ((k + Suc m) choose k)"
  define c2 where "c2 = real (N choose Suc k)"
  define c3 where "c3 = real ((Suc k + m) choose Suc k)"
  have N: "N = Suc (k + Suc m)" by (simp add: N_def)
  have e1: "real (Suc k) * c2 = real N * c1"
  proof -
    have "Suc k * (N choose Suc k) = N * ((k + Suc m) choose k)"
      unfolding N by (rule Suc_times_binomial)
    then have "real (Suc k * (N choose Suc k)) = real (N * ((k + Suc m) choose k))"
      by (simp only:)
    then show ?thesis unfolding c1_def c2_def by (simp only: of_nat_mult)
  qed
  have e2: "real (Suc m) * c2 = real N * c3"
  proof -
    have d: "N - Suc k = Suc m" "N - 1 = Suc k + m"
      by (simp_all add: N_def)
    have "(N - Suc k) * (N choose Suc k) = N * ((N - 1) choose Suc k)"
      by (rule binomial_absorb_comp)
    then have "Suc m * (N choose Suc k) = N * ((Suc k + m) choose Suc k)"
      by (simp only: d)
    then have "real (Suc m * (N choose Suc k)) = real (N * ((Suc k + m) choose Suc k))"
      by (simp only:)
    then show ?thesis unfolding c2_def c3_def by (simp only: of_nat_mult)
  qed
  have ih: "(BinomCDF k N has_real_derivative - (real N * c1 * X)) (at p)"
    using Suc.IH [of "Suc m"] by (simp add: N c1_def X_def mult.assoc)
  have dterm: "((\<lambda>p. c2 * p ^ Suc k * (1 - p) ^ Suc m) has_real_derivative
        (c2 * (real (Suc k) * X - real (Suc m) * Y))) (at p)"
  proof -
    have "((\<lambda>p. c2 * (p ^ Suc k * (1 - p) ^ Suc m)) has_real_derivative
        (c2 * (real (Suc k) * p ^ (Suc k - 1) * (1 - p) ^ Suc m
               - real (Suc m) * (p ^ Suc k * (1 - p) ^ (Suc m - 1))))) (at p)"
      by (rule DERIV_cmult [OF DERIV_pow_times_pow])
    then show ?thesis
      by (simp add: X_def Y_def mult.assoc)
  qed
  have "((\<lambda>p. BinomCDF k N p + c2 * p ^ Suc k * (1 - p) ^ Suc m) has_real_derivative
        (- (real N * c1 * X) + c2 * (real (Suc k) * X - real (Suc m) * Y))) (at p)"
    using ih dterm by (rule DERIV_add)
  moreover have "- (real N * c1 * X) + c2 * (real (Suc k) * X - real (Suc m) * Y)
      = - (real N * c3 * Y)"
  proof -
    have "c2 * (real (Suc k) * X - real (Suc m) * Y)
        = (real (Suc k) * c2) * X - (real (Suc m) * c2) * Y"
      by (simp add: algebra_simps)
    then show ?thesis by (simp only: e1 e2)
  qed
  moreover have "(\<lambda>p. BinomCDF k N p + c2 * p ^ Suc k * (1 - p) ^ Suc m) = BinomCDF (Suc k) N"
    by (rule ext) (simp add: BinomCDF_Suc c2_def N_def)
  ultimately have "(BinomCDF (Suc k) N has_real_derivative - (real N * c3 * Y)) (at p)"
    by simp
  then show ?case
    by (simp add: N_def c3_def Y_def mult.assoc)
qed

lemma BinomCDF_isCont: "isCont (BinomCDF k n) p"
  unfolding BinomCDF_def BinomPMF_def by (intro continuous_intros)

lemma BinomCDF_strict_decreasing:
  assumes "k < n" and "0 \<le> a" and "a < b" and "b \<le> 1"
  shows "BinomCDF k n b < BinomCDF k n a"
proof -
  from \<open>k < n\<close> obtain m where n: "n = Suc (k + m)"
    using less_imp_Suc_add by blast
  show ?thesis
  proof (rule DERIV_neg_imp_decreasing_open [OF \<open>a < b\<close>])
    fix x :: real
    assume "a < x" and "x < b"
    with assms have x: "0 < x" "x < 1" by simp_all
    define D where "D = real (Suc (k + m)) * real ((k + m) choose k) * x ^ k * (1 - x) ^ m"
    have "0 < D"
      unfolding D_def using x by simp
    then have "- D < 0" by simp
    moreover have "(BinomCDF k n has_real_derivative - D) (at x)"
      unfolding n D_def by (rule BinomCDF_deriv)
    ultimately show "\<exists>y. (BinomCDF k n has_real_derivative y) (at x) \<and> y < 0"
      by blast
  next
    show "continuous_on {a..b} (BinomCDF k n)"
      by (intro continuous_at_imp_continuous_on ballI BinomCDF_isCont)
  qed
qed

lemma BinomCDF_root_exists:
  assumes "k < n" and "0 < y" and "y < 1"
  shows "\<exists>p. 0 < p \<and> p < 1 \<and> BinomCDF k n p = y"
proof -
  have "\<exists>p. 0 \<le> p \<and> p \<le> 1 \<and> BinomCDF k n p = y"
    using assms by (intro IVT2) (simp_all add: BinomCDF_at_0 BinomCDF_at_1 BinomCDF_isCont)
  then obtain p where p: "0 \<le> p" "p \<le> 1" "BinomCDF k n p = y" by blast
  have "p \<noteq> 0" using p(3) assms by (auto simp: BinomCDF_at_0)
  moreover have "p \<noteq> 1" using p(3) assms by (auto simp: BinomCDF_at_1)
  ultimately show ?thesis using p by (intro exI [of _ p]) simp
qed

lemma BinomCDF_root_unique:
  assumes "k < n" and "0 \<le> p" "p \<le> 1" and "0 \<le> p'" "p' \<le> 1"
    and "BinomCDF k n p = BinomCDF k n p'"
  shows "p = p'"
proof (rule ccontr)
  assume "p \<noteq> p'"
  then consider "p < p'" | "p' < p" by linarith
  then show False
  proof cases
    case 1
    then have "BinomCDF k n p' < BinomCDF k n p"
      using assms by (intro BinomCDF_strict_decreasing)
    with assms(6) show False by simp
  next
    case 2
    then have "BinomCDF k n p < BinomCDF k n p'"
      using assms by (intro BinomCDF_strict_decreasing)
    with assms(6) show False by simp
  qed
qed

section \<open>The exact interval\<close>

lemma lower_equation_Fin:
  assumes "0 \<le> ntot" and "1 \<le> nsuc" and "0 \<le> x" and "x \<le> 1"
  shows "lower_equation nsuc ntot al2 x = Fin (BinomCDF (nat (nsuc - 1)) (nat ntot) x - 1 + al2)"
  using assms by (simp add: lower_equation_def binom_cdf_def fadd_def)

lemma upper_equation_Fin:
  assumes "0 \<le> ntot" and "0 \<le> nsuc" and "0 \<le> x" and "x \<le> 1"
  shows "upper_equation nsuc ntot al2 x = Fin (BinomCDF (nat nsuc) (nat ntot) x - al2)"
  using assms by (simp add: upper_equation_def binom_cdf_def fadd_def)

lemma root_in_unitE:
  assumes "root_in_unit F r"
  obtains p where "r = Fin p" and "0 < p" and "p < 1" and "F p = Fin 0"
  using assms by (cases r) (simp_all add: root_in_unit_def)

lemma binomialCI_exact:
  assumes "ntot \<noteq> 0"
  shows "\<exists>clt. binomialCI fsolve norm_ppf ntot nsuc alpha =
           Inr ((if nsuc = 0 then Fin 0
                 else fsolve (lower_equation nsuc ntot (alpha / 2))
                        (real_of_int nsuc / real_of_int ntot),
                 if nsuc = ntot then Fin 1
                 else fsolve (upper_equation nsuc ntot (alpha / 2))
                        (real_of_int nsuc / real_of_int ntot)), clt)"
  using assms by (simp add: binomialCI_def Let_def)

lemma lower_root:
  assumes "0 < ntot" and "1 \<le> nsuc" and "nsuc \<le> ntot"
    and "root_in_unit (lower_equation nsuc ntot al2) r"
  shows "\<exists>p. r = Fin p \<and> 0 < p \<and> p < 1
           \<and> BinomCDF (nat (nsuc - 1)) (nat ntot) p = 1 - al2
           \<and> (\<forall>p'. 0 < p' \<and> p' < 1 \<and> BinomCDF (nat (nsuc - 1)) (nat ntot) p' = 1 - al2
                  \<longrightarrow> p' = p)"
proof -
  from assms(4) obtain p where p: "r = Fin p" "0 < p" "p < 1"
    and z: "lower_equation nsuc ntot al2 p = Fin 0"
    by (rule root_in_unitE)
  have kn: "nat (nsuc - 1) < nat ntot" using assms(1-3) by simp
  have "lower_equation nsuc ntot al2 p = Fin (BinomCDF (nat (nsuc - 1)) (nat ntot) p - 1 + al2)"
    using assms(1,2) p(2,3) by (intro lower_equation_Fin) simp_all
  with z have "BinomCDF (nat (nsuc - 1)) (nat ntot) p - 1 + al2 = 0" by simp
  then have eq: "BinomCDF (nat (nsuc - 1)) (nat ntot) p = 1 - al2" by simp
  have uniq: "p' = p"
    if "0 < p' \<and> p' < 1 \<and> BinomCDF (nat (nsuc - 1)) (nat ntot) p' = 1 - al2" for p'
  proof (rule BinomCDF_root_unique [OF kn])
    show "0 \<le> p'" "p' \<le> 1" "0 \<le> p" "p \<le> 1" using that p(2,3) by simp_all
    show "BinomCDF (nat (nsuc - 1)) (nat ntot) p' = BinomCDF (nat (nsuc - 1)) (nat ntot) p"
      using that eq by simp
  qed
  show ?thesis
  proof (intro exI [of _ p] conjI allI impI)
    show "r = Fin p" "0 < p" "p < 1" by fact+
    show "BinomCDF (nat (nsuc - 1)) (nat ntot) p = 1 - al2" by fact
    show "p' = p"
      if "0 < p' \<and> p' < 1 \<and> BinomCDF (nat (nsuc - 1)) (nat ntot) p' = 1 - al2" for p'
      using that by (rule uniq)
  qed
qed

lemma upper_root:
  assumes "0 < ntot" and "0 \<le> nsuc" and "nsuc < ntot"
    and "root_in_unit (upper_equation nsuc ntot al2) r"
  shows "\<exists>p. r = Fin p \<and> 0 < p \<and> p < 1
           \<and> BinomCDF (nat nsuc) (nat ntot) p = al2
           \<and> (\<forall>p'. 0 < p' \<and> p' < 1 \<and> BinomCDF (nat nsuc) (nat ntot) p' = al2
                  \<longrightarrow> p' = p)"
proof -
  from assms(4) obtain p where p: "r = Fin p" "0 < p" "p < 1"
    and z: "upper_equation nsuc ntot al2 p = Fin 0"
    by (rule root_in_unitE)
  have kn: "nat nsuc < nat ntot" using assms(1-3) by simp
  have "upper_equation nsuc ntot al2 p = Fin (BinomCDF (nat nsuc) (nat ntot) p - al2)"
    using assms(1,2) p(2,3) by (intro upper_equation_Fin) simp_all
  with z have "BinomCDF (nat nsuc) (nat ntot) p - al2 = 0" by simp
  then have eq: "BinomCDF (nat nsuc) (nat ntot) p = al2" by simp
  have uniq: "p' = p"
    if "0 < p' \<and> p' < 1 \<and> BinomCDF (nat nsuc) (nat ntot) p' = al2" for p'
  proof (rule BinomCDF_root_unique [OF kn])
    show "0 \<le> p'" "p' \<le> 1" "0 \<le> p" "p \<le> 1" using that p(2,3) by simp_all
    show "BinomCDF (nat nsuc) (nat ntot) p' = BinomCDF (nat nsuc) (nat ntot) p"
      using that eq by simp
  qed
  show ?thesis
  proof (intro exI [of _ p] conjI allI impI)
    show "r = Fin p" "0 < p" "p < 1" by fact+
    show "BinomCDF (nat nsuc) (nat ntot) p = al2" by fact
    show "p' = p"
      if "0 < p' \<and> p' < 1 \<and> BinomCDF (nat nsuc) (nat ntot) p' = al2" for p'
      using that by (rule uniq)
  qed
qed

text \<open>Both equations of a valid call have a root for the solver to find.\<close>

lemma exact_equations_solvable:
  assumes "0 < ntot" and "0 \<le> nsuc" and "nsuc \<le> ntot" and "0 < alpha" and "alpha < 1"
  shows "(nsuc \<noteq> 0 \<longrightarrow> (\<exists>p. root_in_unit (lower_equation nsuc ntot (alpha / 2)) (Fin p)))
       \<and> (nsuc \<noteq> ntot \<longrightarrow> (\<exists>p. root_in_unit (upper_equation nsuc ntot (alpha / 2)) (Fin p)))"
proof (intro conjI impI)
  assume "nsuc \<noteq> 0"
  with assms(2) have k: "1 \<le> nsuc" by simp
  with assms(1,3) have "nat (nsuc - 1) < nat ntot" by simp
  moreover have "0 < 1 - alpha / 2" "1 - alpha / 2 < 1" using assms(4,5) by simp_all
  ultimately obtain p where p: "0 < p" "p < 1"
    and e: "BinomCDF (nat (nsuc - 1)) (nat ntot) p = 1 - alpha / 2"
    using BinomCDF_root_exists by blast
  have "lower_equation nsuc ntot (alpha / 2) p
      = Fin (BinomCDF (nat (nsuc - 1)) (nat ntot) p - 1 + alpha / 2)"
    using assms(1) k p by (intro lower_equation_Fin) simp_all
  with e have "lower_equation nsuc ntot (alpha / 2) p = Fin 0" by simp
  with p have "root_in_unit (lower_equation nsuc ntot (alpha / 2)) (Fin p)"
    by (simp add: root_in_unit_def)
  then show "\<exists>p. root_in_unit (lower_equation nsuc ntot (alpha / 2)) (Fin p)" ..
next
  assume "nsuc \<noteq> ntot"
  with assms(2,3) have "nat nsuc < nat ntot" by simp
  moreover have "0 < alpha / 2" "alpha / 2 < 1" using assms(4,5) by simp_all
  ultimately obtain p where p: "0 < p" "p < 1"
    and e: "BinomCDF (nat nsuc) (nat ntot) p = alpha / 2"
    using BinomCDF_root_exists by blast
  have "upper_equation nsuc ntot (alpha / 2) p = Fin (BinomCDF (nat nsuc) (nat ntot) p - alpha / 2)"
    using assms(1,2) p by (intro upper_equation_Fin) simp_all
  with e have "upper_equation nsuc ntot (alpha / 2) p = Fin 0" by simp
  with p have "root_in_unit (upper_equation nsuc ntot (alpha / 2)) (Fin p)"
    by (simp add: root_in_unit_def)
  then show "\<exists>p. root_in_unit (upper_equation nsuc ntot (alpha / 2)) (Fin p)" ..
qed

text \<open>
  When the solver delivers a root in \<open>(0, 1)\<close> of each function it is given, the exact bounds
  of a valid call are the bounds of the Clopper-Pearson interval: the lower bound is 0 when
  \<open>nsuc = 0\<close> and otherwise the one and only \<open>p\<close> in \<open>(0, 1)\<close> with
  \<open>BinomCDF(nsuc - 1; ntot, p) = 1 - alpha/2\<close>; the upper bound is 1 when \<open>nsuc = ntot\<close> and
  otherwise the one and only \<open>p\<close> in \<open>(0, 1)\<close> with \<open>BinomCDF(nsuc; ntot, p) = alpha/2\<close>.
\<close>

lemma binomialCI_exact_of_roots:
  assumes "0 < ntot" and "0 \<le> nsuc" and "nsuc \<le> ntot" and "0 < alpha" and "alpha < 1"
    and "nsuc \<noteq> 0 \<Longrightarrow> root_in_unit (lower_equation nsuc ntot (alpha / 2))
           (fsolve (lower_equation nsuc ntot (alpha / 2)) (real_of_int nsuc / real_of_int ntot))"
    and "nsuc \<noteq> ntot \<Longrightarrow> root_in_unit (upper_equation nsuc ntot (alpha / 2))
           (fsolve (upper_equation nsuc ntot (alpha / 2)) (real_of_int nsuc / real_of_int ntot))"
  shows "\<exists>lo hi clt.
           binomialCI fsolve norm_ppf ntot nsuc alpha = Inr ((lo, hi), clt)
         \<and> (nsuc = 0 \<longrightarrow> lo = Fin 0)
         \<and> (nsuc \<noteq> 0 \<longrightarrow>
              lo = fsolve (lower_equation nsuc ntot (alpha / 2))
                     (real_of_int nsuc / real_of_int ntot)
            \<and> (\<exists>p. lo = Fin p \<and> 0 < p \<and> p < 1
                 \<and> BinomCDF (nat (nsuc - 1)) (nat ntot) p = 1 - alpha / 2
                 \<and> (\<forall>p'. 0 < p' \<and> p' < 1
                         \<and> BinomCDF (nat (nsuc - 1)) (nat ntot) p' = 1 - alpha / 2
                       \<longrightarrow> p' = p)))
         \<and> (nsuc = ntot \<longrightarrow> hi = Fin 1)
         \<and> (nsuc \<noteq> ntot \<longrightarrow>
              hi = fsolve (upper_equation nsuc ntot (alpha / 2))
                     (real_of_int nsuc / real_of_int ntot)
            \<and> (\<exists>p. hi = Fin p \<and> 0 < p \<and> p < 1
                 \<and> BinomCDF (nat nsuc) (nat ntot) p = alpha / 2
                 \<and> (\<forall>p'. 0 < p' \<and> p' < 1 \<and> BinomCDF (nat nsuc) (nat ntot) p' = alpha / 2
                       \<longrightarrow> p' = p)))"
proof -
  let ?obs = "real_of_int nsuc / real_of_int ntot"
  let ?lo = "if nsuc = 0 then Fin 0 else fsolve (lower_equation nsuc ntot (alpha / 2)) ?obs"
  let ?hi = "if nsuc = ntot then Fin 1 else fsolve (upper_equation nsuc ntot (alpha / 2)) ?obs"
  define L where "L r \<longleftrightarrow> (\<exists>p. r = Fin p \<and> 0 < p \<and> p < 1
      \<and> BinomCDF (nat (nsuc - 1)) (nat ntot) p = 1 - alpha / 2
      \<and> (\<forall>p'. 0 < p' \<and> p' < 1 \<and> BinomCDF (nat (nsuc - 1)) (nat ntot) p' = 1 - alpha / 2
             \<longrightarrow> p' = p))" for r
  define U where "U r \<longleftrightarrow> (\<exists>p. r = Fin p \<and> 0 < p \<and> p < 1
      \<and> BinomCDF (nat nsuc) (nat ntot) p = alpha / 2
      \<and> (\<forall>p'. 0 < p' \<and> p' < 1 \<and> BinomCDF (nat nsuc) (nat ntot) p' = alpha / 2
             \<longrightarrow> p' = p))" for r
  from assms(1) have "ntot \<noteq> 0" by simp
  from binomialCI_exact [OF this, of fsolve norm_ppf nsuc alpha]
  obtain clt where r: "binomialCI fsolve norm_ppf ntot nsuc alpha = Inr ((?lo, ?hi), clt)" ..
  have lo: "L (fsolve (lower_equation nsuc ntot (alpha / 2)) ?obs)" if "nsuc \<noteq> 0"
  proof -
    from that assms(2) have "1 \<le> nsuc" by simp
    with assms(1) show ?thesis
      unfolding L_def using assms(3) assms(6) [OF that] by (rule lower_root)
  qed
  have hi: "U (fsolve (upper_equation nsuc ntot (alpha / 2)) ?obs)" if "nsuc \<noteq> ntot"
  proof -
    from that assms(3) have "nsuc < ntot" by simp
    with assms(1,2) show ?thesis
      unfolding U_def using assms(7) [OF that] by (rule upper_root)
  qed
  have "binomialCI fsolve norm_ppf ntot nsuc alpha = Inr ((?lo, ?hi), clt)
      \<and> (nsuc = 0 \<longrightarrow> ?lo = Fin 0)
      \<and> (nsuc \<noteq> 0 \<longrightarrow> ?lo = fsolve (lower_equation nsuc ntot (alpha / 2)) ?obs \<and> L ?lo)
      \<and> (nsuc = ntot \<longrightarrow> ?hi = Fin 1)
      \<and> (nsuc \<noteq> ntot \<longrightarrow> ?hi = fsolve (upper_equation nsuc ntot (alpha / 2)) ?obs \<and> U ?hi)"
    using r lo hi by simp
  then have "\<exists>lo hi clt. binomialCI fsolve norm_ppf ntot nsuc alpha = Inr ((lo, hi), clt)
      \<and> (nsuc = 0 \<longrightarrow> lo = Fin 0)
      \<and> (nsuc \<noteq> 0 \<longrightarrow> lo = fsolve (lower_equation nsuc ntot (alpha / 2)) ?obs \<and> L lo)
      \<and> (nsuc = ntot \<longrightarrow> hi = Fin 1)
      \<and> (nsuc \<noteq> ntot \<longrightarrow> hi = fsolve (upper_equation nsuc ntot (alpha / 2)) ?obs \<and> U hi)"
    by (intro exI)
  then show ?thesis
    unfolding L_def U_def .
qed

text \<open>
  The solver of the code does not always deliver a root. With no failure, \<open>nsuc = ntot\<close>,
  the lower equation is started at \<open>obsprob = 1\<close>, on the edge of \<open>[0, 1]\<close>: the
  forward-difference point \<open>1 + 1/2^26\<close> is outside, the function is NaN there, and the
  solver returns 1.
\<close>

lemma forward_step_pos: "0 < forward_step x0"
  by (simp add: forward_step_def)

lemma lower_equation_outside:
  assumes "1 < x"
  shows "lower_equation nsuc ntot al2 x = NaN"
  using assms by (simp add: lower_equation_def binom_cdf_def fadd_def)

lemma fsolve_minpack_forward_NaN:
  assumes "F (x0 + forward_step x0) = NaN"
  shows "fsolve_minpack later F x0 = Fin x0"
  using assms by (simp add: fsolve_minpack_def split: npfloat.splits)

lemma fsolve_minpack_lower_at_1:
  "fsolve_minpack later (lower_equation nsuc ntot al2) 1 = Fin 1"
proof (rule fsolve_minpack_forward_NaN)
  have "1 < 1 + forward_step 1" using forward_step_pos [of 1] by simp
  then show "lower_equation nsuc ntot al2 (1 + forward_step 1) = NaN"
    by (rule lower_equation_outside)
qed

lemma binomialCI_all_successes:
  assumes "ntot \<noteq> 0"
  shows "\<exists>clt. binomialCI (fsolve_minpack later) norm_ppf ntot ntot alpha
           = Inr ((Fin 1, Fin 1), clt)"
  using binomialCI_exact [OF assms, of "fsolve_minpack later" norm_ppf ntot alpha] assms
  by (simp add: fsolve_minpack_lower_at_1)

text \<open>
  The same happens away from the edge when the first Newton point is outside \<open>[0, 1]\<close>. With
  one success in two trials and \<open>alpha = 0.05\<close> the lower equation is \<open>(1 - p)\<^sup>2 = 0.975\<close> and
  the upper one \<open>1 - p\<^sup>2 = 0.025\<close>; from \<open>1/2\<close> the Newton points are near \<open>-0.225\<close> and
  \<open>1.225\<close>, and both bounds come back as \<open>1/2\<close>.
\<close>

lemma fsolve_minpack_lower_1_of_2:
  "fsolve_minpack later (lower_equation 1 2 (1 / 40)) (1 / 2) = Fin (1 / 2)"
  by (simp add: fsolve_minpack_def lower_equation_def binom_cdf_def fadd_def BinomCDF_0
      forward_step_def step_bound_def Let_def power2_eq_square split: npfloat.splits)

lemma fsolve_minpack_upper_1_of_2:
  "fsolve_minpack later (upper_equation 1 2 (1 / 40)) (1 / 2) = Fin (1 / 2)"
  by (simp add: fsolve_minpack_def upper_equation_def binom_cdf_def fadd_def BinomCDF_0
      BinomCDF_Suc forward_step_def step_bound_def Let_def power2_eq_square
      split: npfloat.splits)

lemma binomialCI_1_of_2:
  "\<exists>clt. binomialCI (fsolve_minpack later) norm_ppf 2 1 (1 / 20)
     = Inr ((Fin (1 / 2), Fin (1 / 2)), clt)"
  using binomialCI_exact [of 2 "fsolve_minpack later" norm_ppf 1 "1 / 20"]
  by (simp add: fsolve_minpack_lower_1_of_2 fsolve_minpack_upper_1_of_2)

text \<open>
  Claim C3, at a valid call where the code misses it. \<^verbatim>\<open>binomialCI(10, 10, 0.05)\<close> returns
  the exact interval \<open>[1, 1]\<close>. Its lower bound 1 is not in \<open>(0, 1)\<close> and does not solve
  \<open>BinomCDF(9; 10, p) = 0.975\<close>, an equation that has a root in \<open>(0, 1)\<close> (the tenth root of
  0.025, 0.6915\<dots>): the solver was started at \<open>obsprob = 1\<close> and returned its start value.
\<close>

theorem binomialCI_lower_bound_all_successes:
  "(\<exists>clt. binomialCI (fsolve_minpack later) norm_ppf 10 10 (1 / 20)
            = Inr ((Fin 1, Fin 1), clt))
   \<and> \<not> root_in_unit (lower_equation 10 10 (1 / 20 / 2)) (Fin 1)
   \<and> (\<exists>p. root_in_unit (lower_equation 10 10 (1 / 20 / 2)) (Fin p))"
proof (intro conjI)
  show "\<exists>clt. binomialCI (fsolve_minpack later) norm_ppf 10 10 (1 / 20)
            = Inr ((Fin 1, Fin 1), clt)"
    by (rule binomialCI_all_successes) simp
  show "\<not> root_in_unit (lower_equation 10 10 (1 / 20 / 2)) (Fin 1)"
    by (simp add: root_in_unit_def)
  show "\<exists>p. root_in_unit (lower_equation 10 10 (1 / 20 / 2)) (Fin p)"
    using exact_equations_solvable [of 10 10 "1 / 20"] by simp
qed

section \<open>The CLT interval\<close>

lemma binomialCI_result:
  assumes "ntot \<noteq> 0"
  shows "binomialCI fsolve norm_ppf ntot nsuc alpha =
           Inr ((if nsuc = 0 then Fin 0
                 else fsolve (lower_equation nsuc ntot (alpha / 2))
                        (real_of_int nsuc / real_of_int ntot),
                 if nsuc = ntot then Fin 1
                 else fsolve (upper_equation nsuc ntot (alpha / 2))
                        (real_of_int nsuc / real_of_int ntot)),
                (fadd (Fin (real_of_int nsuc / real_of_int ntot))
                   (fmul (Fin (- 1))
                      (fdiv (fmul (fneg (norm_ppf (alpha / 2)))
                               (fsqrt (real_of_int nsuc / real_of_int ntot
                                        * (1 - real_of_int nsuc / real_of_int ntot))))
                         (fsqrt (real_of_int ntot)))),
                 fadd (Fin (real_of_int nsuc / real_of_int ntot))
                   (fmul (Fin 1)
                      (fdiv (fmul (fneg (norm_ppf (alpha / 2)))
                               (fsqrt (real_of_int nsuc / real_of_int ntot
                                        * (1 - real_of_int nsuc / real_of_int ntot))))
                         (fsqrt (real_of_int ntot))))))"
  using assms by (simp add: binomialCI_def Let_def)

lemma clt_half_width:
  assumes "0 < n" and "0 \<le> v"
  shows "fdiv (fmul (fneg (Fin z)) (fsqrt v)) (fsqrt n) = Fin (- z * sqrt (v / n))"
  using assms by (simp add: fdiv_def fmul_def fsqrt_def real_sqrt_divide)

lemma binomialCI_clt:
  assumes "0 < ntot" and "0 \<le> nsuc" and "nsuc \<le> ntot" and "norm_ppf (alpha / 2) = Fin z"
  shows "binomialCI fsolve norm_ppf ntot nsuc alpha =
           Inr ((if nsuc = 0 then Fin 0
                 else fsolve (lower_equation nsuc ntot (alpha / 2))
                        (real_of_int nsuc / real_of_int ntot),
                 if nsuc = ntot then Fin 1
                 else fsolve (upper_equation nsuc ntot (alpha / 2))
                        (real_of_int nsuc / real_of_int ntot)),
                (Fin (real_of_int nsuc / real_of_int ntot
                   - (- z) * sqrt (real_of_int nsuc / real_of_int ntot
                                   * (1 - real_of_int nsuc / real_of_int ntot) / real_of_int ntot)),
                 Fin (real_of_int nsuc / real_of_int ntot
                   + (- z) * sqrt (real_of_int nsuc / real_of_int ntot
                                   * (1 - real_of_int nsuc / real_of_int ntot) / real_of_int ntot))))"
proof -
  let ?obs = "real_of_int nsuc / real_of_int ntot"
  have o: "0 \<le> ?obs" "0 \<le> 1 - ?obs" using assms(1-3) by simp_all
  then have v: "0 \<le> ?obs * (1 - ?obs)" by (rule mult_nonneg_nonneg)
  have n: "0 < real_of_int ntot" using assms(1) by simp
  from assms(1) have nz: "ntot \<noteq> 0" by simp
  have h: "fdiv (fmul (fneg (norm_ppf (alpha / 2))) (fsqrt (?obs * (1 - ?obs))))
      (fsqrt (real_of_int ntot)) = Fin (- z * sqrt (?obs * (1 - ?obs) / real_of_int ntot))"
    unfolding assms(4) using n v by (rule clt_half_width)
  show ?thesis
    unfolding binomialCI_result [OF nz] h by (simp add: fadd_def fmul_def)
qed

text \<open>
  Claim C6. For a valid call with a finite critical value \<open>z = \<Phi>\<^sup>-\<^sup>1(alpha/2)\<close> the CLT interval
  is \<open>obsprob \<plusminus> (-z) \<sqdot> sqrt(obsprob \<sqdot> (1 - obsprob) / ntot)\<close>, with no clipping: whenever
  \<open>z < -3/2\<close> (any \<open>alpha\<close> below 0.13) the valid call with two trials and one success has
  its lower end below 0 and its upper end above 1.
\<close>

theorem binomialCI_clt_unclipped:
  assumes "0 < ntot" and "0 \<le> nsuc" and "nsuc \<le> ntot" and "norm_ppf (alpha / 2) = Fin z"
  shows "(\<exists>exact. binomialCI fsolve norm_ppf ntot nsuc alpha =
            Inr (exact,
                 (Fin (real_of_int nsuc / real_of_int ntot
                    - (- z) * sqrt (real_of_int nsuc / real_of_int ntot
                                    * (1 - real_of_int nsuc / real_of_int ntot) / real_of_int ntot)),
                  Fin (real_of_int nsuc / real_of_int ntot
                    + (- z) * sqrt (real_of_int nsuc / real_of_int ntot
                                    * (1 - real_of_int nsuc / real_of_int ntot) / real_of_int ntot)))))
       \<and> (z < - (3 / 2) \<longrightarrow>
            (\<exists>exact lo hi. binomialCI fsolve norm_ppf 2 1 alpha = Inr (exact, (Fin lo, Fin hi))
                \<and> lo < 0 \<and> 1 < hi))"
proof (intro conjI impI)
  show "\<exists>exact. binomialCI fsolve norm_ppf ntot nsuc alpha =
            Inr (exact,
                 (Fin (real_of_int nsuc / real_of_int ntot
                    - (- z) * sqrt (real_of_int nsuc / real_of_int ntot
                                    * (1 - real_of_int nsuc / real_of_int ntot) / real_of_int ntot)),
                  Fin (real_of_int nsuc / real_of_int ntot
                    + (- z) * sqrt (real_of_int nsuc / real_of_int ntot
                                    * (1 - real_of_int nsuc / real_of_int ntot) / real_of_int ntot))))"
    using binomialCI_clt [where norm_ppf = norm_ppf and alpha = alpha and z = z
        and ntot = ntot and nsuc = nsuc and fsolve = fsolve] assms
    by (intro exI) simp
next
  assume z: "z < - (3 / 2)"
  define w where "w = (- z) * sqrt (1 / 8)"
  have "(1 / 3)\<^sup>2 < (1 / 8 :: real)" by (simp add: power2_eq_square)
  then have "1 / 3 < sqrt (1 / 8)" by (rule real_less_rsqrt)
  moreover have "3 / 2 < - z" using z by simp
  ultimately have "3 / 2 * (1 / 3) < (- z) * sqrt (1 / 8)"
    by (intro mult_strict_mono) simp_all
  then have w: "1 / 2 < w" by (simp add: w_def)
  have "binomialCI fsolve norm_ppf 2 1 alpha =
      Inr ((fsolve (lower_equation 1 2 (alpha / 2)) (1 / 2),
            fsolve (upper_equation 1 2 (alpha / 2)) (1 / 2)),
           (Fin (1 / 2 - w), Fin (1 / 2 + w)))"
    using binomialCI_clt [where ntot = 2 and nsuc = 1 and norm_ppf = norm_ppf and alpha = alpha
        and z = z and fsolve = fsolve] assms(4) by (simp add: w_def)
  moreover have "1 / 2 - w < 0" "1 < 1 / 2 + w" using w by simp_all
  ultimately show "\<exists>exact lo hi. binomialCI fsolve norm_ppf 2 1 alpha
      = Inr (exact, (Fin lo, Fin hi)) \<and> lo < 0 \<and> 1 < hi"
    by blast
qed

text \<open>
  Claim C6, an instance: \<open>alpha = 0.05\<close>, two trials, one success, whatever the solver does
  after its first iteration.
\<close>

theorem binomialCI_clt_unclipped_witness:
  "(0::int) < 2 \<and> (0::int) \<le> 1 \<and> (1::int) \<le> 2
   \<and> norm_ppf_2dp (1 / 20 / 2) = Fin (- (49 / 25)) \<and> - (49 / 25) < - (3 / 2 :: real)
   \<and> (\<forall>later. \<exists>exact lo hi. binomialCI (fsolve_minpack later) norm_ppf_2dp 2 1 (1 / 20)
          = Inr (exact, (Fin lo, Fin hi)) \<and> lo < 0 \<and> 1 < hi)"
proof -
  have z: "norm_ppf_2dp (1 / 20 / 2) = Fin (- (49 / 25))"
    by (simp add: norm_ppf_2dp_def)
  have "\<exists>exact lo hi. binomialCI (fsolve_minpack later) norm_ppf_2dp 2 1 (1 / 20)
          = Inr (exact, (Fin lo, Fin hi)) \<and> lo < 0 \<and> 1 < hi" for later
    using binomialCI_clt_unclipped [where ntot = 2 and nsuc = 1 and norm_ppf = norm_ppf_2dp
        and alpha = "1 / 20" and z = "- (49 / 25)" and fsolve = "fsolve_minpack later"] z
    by simp
  then show ?thesis using z by simp
qed

text \<open>
  With no success the CLT interval is \<open>[0, 0]\<close>, with no failure it is \<open>[1, 1]\<close>: the half
  width vanishes with \<open>obsprob \<sqdot> (1 - obsprob)\<close>.
\<close>

lemma binomialCI_clt_extremes:
  assumes "0 < ntot" and "norm_ppf (alpha / 2) = Fin z"
  shows "(\<exists>exact. binomialCI fsolve norm_ppf ntot 0 alpha = Inr (exact, (Fin 0, Fin 0)))
       \<and> (\<exists>exact. binomialCI fsolve norm_ppf ntot ntot alpha = Inr (exact, (Fin 1, Fin 1)))"
proof -
  have zero: "binomialCI fsolve norm_ppf ntot 0 alpha =
      Inr ((Fin 0, fsolve (upper_equation 0 ntot (alpha / 2)) 0), (Fin 0, Fin 0))"
    using binomialCI_clt [where ntot = ntot and nsuc = 0 and norm_ppf = norm_ppf
        and alpha = alpha and z = z and fsolve = fsolve] assms by simp
  have full: "binomialCI fsolve norm_ppf ntot ntot alpha =
      Inr ((fsolve (lower_equation ntot ntot (alpha / 2)) 1, Fin 1), (Fin 1, Fin 1))"
    using binomialCI_clt [where ntot = ntot and nsuc = ntot and norm_ppf = norm_ppf
        and alpha = alpha and z = z and fsolve = fsolve] assms by simp
  from zero
  have "\<exists>exact. binomialCI fsolve norm_ppf ntot 0 alpha = Inr (exact, (Fin 0, Fin 0))"
    by simp
  moreover from full
  have "\<exists>exact. binomialCI fsolve norm_ppf ntot ntot alpha = Inr (exact, (Fin 1, Fin 1))"
    by simp
  ultimately show ?thesis by (intro conjI)
qed

lemma fortieths_lower: "lower_equation 1 1 (1 / 40) (1 / 40) = Fin 0"
  by (simp add: lower_equation_def binom_cdf_def fadd_def BinomCDF_0)

text \<open>
  Claim C10, at a valid call where the code misses it. \<^verbatim>\<open>binomialCI(1, 1, 0.05)\<close> returns
  the CLT interval \<open>[1, 1]\<close>, as claimed, and the exact interval \<open>[1, 1]\<close>, which has no width
  either: the solver for the lower bound was started at \<open>obsprob = 1\<close> and returned its start
  value, not the root \<open>1/40\<close> of the equation it was given.
\<close>

theorem binomialCI_exact_zero_width:
  "binomialCI (fsolve_minpack later) norm_ppf_2dp 1 1 (1 / 20)
     = Inr ((Fin 1, Fin 1), (Fin 1, Fin 1))
   \<and> root_in_unit (lower_equation 1 1 (1 / 20 / 2)) (Fin (1 / 40))"
proof
  have z: "norm_ppf_2dp (1 / 20 / 2) = Fin (- (49 / 25))"
    by (simp add: norm_ppf_2dp_def)
  show "binomialCI (fsolve_minpack later) norm_ppf_2dp 1 1 (1 / 20)
     = Inr ((Fin 1, Fin 1), (Fin 1, Fin 1))"
    using binomialCI_clt [where ntot = 1 and nsuc = 1 and norm_ppf = norm_ppf_2dp
        and alpha = "1 / 20" and z = "- (49 / 25)" and fsolve = "fsolve_minpack later"] z
    by (simp add: fsolve_minpack_lower_at_1)
  show "root_in_unit (lower_equation 1 1 (1 / 20 / 2)) (Fin (1 / 40))"
    by (simp add: root_in_unit_def fortieths_lower)
qed

section \<open>The order array and the quantile search\<close>

lemma order_array_eq: "order_array xs (a, b) = a # sort xs @ [b]"
proof -
  have 1: "(replicate (length xs + 2) (0::real))[0 := a] = a # replicate (length xs) 0 @ [0]"
    by (simp add: replicate_append_same)
  have 2: "assign_slice (a # replicate (length xs) 0 @ [0]) 1 (sort xs) = a # sort xs @ [0]"
    by (simp add: assign_slice_def)
  have 3: "(a # sort xs @ [0])[length xs + 1 := b] = a # sort xs @ [b]"
    by (simp add: list_update_append)
  show ?thesis
    by (simp only: order_array_def Let_def fst_conv snd_conv 1 2 3)
qed

lemma length_order_array: "length (order_array xs ex) = length xs + 2"
  by (cases ex) (simp add: order_array_eq)

lemma search_up_le: "search_up P m k \<le> k + m"
proof (induction m arbitrary: k)
  case 0
  show ?case by simp
next
  case (Suc m)
  from Suc [of "Suc k"] show ?case by simp
qed

lemma search_up_ge: "k \<le> search_up P m k"
proof (induction m arbitrary: k)
  case 0
  show ?case by simp
next
  case (Suc m)
  from Suc [of "Suc k"] show ?case by (simp add: Suc_leD)
qed

lemma search_up_found: "search_up P m k < k + m \<Longrightarrow> P (search_up P m k)"
proof (induction m arbitrary: k)
  case 0
  then show ?case by simp
next
  case (Suc m)
  show ?case
  proof (cases "P k")
    case True
    then show ?thesis by simp
  next
    case False
    with Suc.prems have "search_up P m (Suc k) < Suc k + m" by simp
    then have "P (search_up P m (Suc k))" by (rule Suc.IH)
    with False show ?thesis by simp
  qed
qed

lemma search_up_least: "k \<le> j \<Longrightarrow> j < search_up P m k \<Longrightarrow> \<not> P j"
proof (induction m arbitrary: k)
  case 0
  then show ?case by simp
next
  case (Suc m)
  show ?case
  proof (cases "P k")
    case True
    with Suc.prems show ?thesis by simp
  next
    case False
    show ?thesis
    proof (cases "j = k")
      case True
      with False show ?thesis by simp
    next
      case ne: False
      with Suc.prems(1) have "Suc k \<le> j" by simp
      moreover from Suc.prems(2) False have "j < search_up P m (Suc k)" by simp
      ultimately show ?thesis by (rule Suc.IH)
    qed
  qed
qed

lemma search_up_mono:
  assumes "\<And>j. Q j \<Longrightarrow> P j"
  shows "search_up P m k \<le> search_up Q m k"
proof (rule ccontr)
  assume "\<not> search_up P m k \<le> search_up Q m k"
  then have lt: "search_up Q m k < search_up P m k" by simp
  also have "\<dots> \<le> k + m" by (rule search_up_le)
  finally have "Q (search_up Q m k)" by (rule search_up_found)
  then have "P (search_up Q m k)" by (rule assms)
  moreover have "\<not> P (search_up Q m k)"
    using search_up_ge lt by (rule search_up_least)
  ultimately show False by simp
qed

lemma BinomQuantile_le: "BinomQuantile q n p \<le> n"
  using search_up_le [of _ n 0] by (simp add: BinomQuantile_def)

lemma BinomQuantile_mono: "q1 \<le> q2 \<Longrightarrow> BinomQuantile q1 n p \<le> BinomQuantile q2 n p"
  unfolding BinomQuantile_def by (rule search_up_mono) simp

lemma BinomQuantile_reaches:
  assumes "q \<le> 1"
  shows "q \<le> BinomCDF (BinomQuantile q n p) n p"
proof (cases "BinomQuantile q n p < n")
  case True
  then have "search_up (\<lambda>k. q \<le> BinomCDF k n p) n 0 < 0 + n"
    by (simp add: BinomQuantile_def)
  then have "q \<le> BinomCDF (search_up (\<lambda>k. q \<le> BinomCDF k n p) n 0) n p"
    by (rule search_up_found)
  then show ?thesis by (simp add: BinomQuantile_def)
next
  case False
  with BinomQuantile_le [of q n p] have "BinomQuantile q n p = n" by simp
  with assms show ?thesis by (simp add: BinomCDF_full)
qed

lemma BinomQuantile_least:
  assumes "j < BinomQuantile q n p"
  shows "BinomCDF j n p < q"
proof -
  have "\<not> q \<le> BinomCDF j n p"
    using assms unfolding BinomQuantile_def by (intro search_up_least [of 0]) simp_all
  then show ?thesis by simp
qed

lemma binom_ppf_valid:
  assumes "0 < q" and "q < 1" and "0 \<le> p" and "p \<le> 1"
  shows "binom_ppf q (int n) p = Fin (real (BinomQuantile q n p))"
  using assms by (simp add: binom_ppf_def)

lemma np_index_nat:
  assumes "i < length xs"
  shows "np_index xs (int i) = Inr (xs ! i)"
  using assms by (simp add: np_index_def Let_def)

lemma astype_int_offset:
  assumes "int c + int k < 2 ^ 63"
  shows "astype_int cast (fadd (Fin (real c)) (Fin (real k))) = int (c + k)"
proof -
  have "fadd (Fin (real c)) (Fin (real k)) = Fin (of_int (int (c + k)))"
    by (simp add: fadd_def)
  moreover have "astype_int cast (Fin (of_int (int (c + k)))) = int (c + k)"
    using assms by (intro astype_int_of_int) (simp_all add: int64_min_def)
  ultimately show ?thesis by simp
qed

lemma quantileCI_in_range:
  assumes lo: "binom_ppf (alpha / 2) (int (length xs)) quant = Fin (real k1)"
    and up: "binom_ppf (1 - alpha / 2) (int (length xs)) quant = Fin (real k2)"
    and k1: "k1 \<le> length xs" and k2: "k2 < length xs"
    and len: "int (length xs) + 2 < 2 ^ 63"
  shows "quantileCI cast quant xs (a, b) alpha =
           Inr ((a # sort xs @ [b]) ! (1 + k1), (a # sort xs @ [b]) ! (2 + k2))"
proof -
  have i1: "astype_int cast (fadd (Fin 1) (Fin (real k1))) = int (1 + k1)"
    using astype_int_offset [of 1 k1] k1 len by simp
  have i2: "astype_int cast (fadd (Fin 2) (Fin (real k2))) = int (2 + k2)"
    using astype_int_offset [of 2 k2] k2 len by simp
  have r1: "np_index (a # sort xs @ [b]) (int (1 + k1)) = Inr ((a # sort xs @ [b]) ! (1 + k1))"
    using k1 by (intro np_index_nat) simp
  have r2: "np_index (a # sort xs @ [b]) (int (2 + k2)) = Inr ((a # sort xs @ [b]) ! (2 + k2))"
    using k2 by (intro np_index_nat) simp
  show ?thesis
    unfolding quantileCI_def Let_def lo up i1 i2 order_array_eq r1 r2 by simp
qed

lemma quantileCI_upper_out_of_range:
  assumes lo: "binom_ppf (alpha / 2) (int (length xs)) quant = Fin (real k1)"
    and up: "binom_ppf (1 - alpha / 2) (int (length xs)) quant = Fin (real (length xs))"
    and k1: "k1 \<le> length xs"
    and len: "int (length xs) + 2 < 2 ^ 63"
  shows "quantileCI cast quant xs (a, b) alpha = Inl IndexError"
proof -
  have i1: "astype_int cast (fadd (Fin 1) (Fin (real k1))) = int (1 + k1)"
    using astype_int_offset [of 1 k1] k1 len by simp
  have i2: "astype_int cast (fadd (Fin 2) (Fin (real (length xs)))) = int (2 + length xs)"
    using astype_int_offset [of 2 "length xs"] len by simp
  have r1: "np_index (a # sort xs @ [b]) (int (1 + k1)) = Inr ((a # sort xs @ [b]) ! (1 + k1))"
    using k1 by (intro np_index_nat) simp
  have r2: "np_index (a # sort xs @ [b]) (int (2 + length xs)) = Inl IndexError"
    by (simp add: np_index_def Let_def)
  show ?thesis
    unfolding quantileCI_def Let_def lo up i1 i2 order_array_eq r1 r2 by simp
qed

lemma clamp_index_id: "i \<le> n + 1 \<Longrightarrow> clamp_index n (int i) = i"
  by (simp add: clamp_index_def)

text \<open>
  Claim C2, as the code has it. For a valid configuration and an upper position
  \<open>2 + BinomQuantile(1 - alpha/2; n, quant)\<close> that is at most \<open>n + 1\<close>, the order array is
  \<open>loBound\<close>, the sorted sample, \<open>hiBound\<close>, and the interval is read from it at the
  positions \<open>1 + BinomQuantile(alpha/2; n, quant)\<close> and \<open>2 + BinomQuantile(1 - alpha/2; n, quant)\<close>;
  there the clamped interval of the specification is the same.
\<close>

theorem quantileCI_order_statistics:
  assumes "0 < quant" and "quant < 1" and "0 < alpha" and "alpha < 1"
    and "int (length Xsample) + 2 < 2 ^ 63"
    and "BinomQuantile (1 - alpha / 2) (length Xsample) quant < length Xsample"
  shows "order_array Xsample (loBound, hiBound) = loBound # sort Xsample @ [hiBound]
       \<and> quantileCI cast quant Xsample (loBound, hiBound) alpha =
           Inr ((loBound # sort Xsample @ [hiBound])
                  ! (1 + BinomQuantile (alpha / 2) (length Xsample) quant),
                (loBound # sort Xsample @ [hiBound])
                  ! (2 + BinomQuantile (1 - alpha / 2) (length Xsample) quant))
       \<and> quantileCI cast quant Xsample (loBound, hiBound) alpha =
           Inr (quantileInterval_spec quant Xsample (loBound, hiBound) alpha)"
proof -
  let ?n = "length Xsample"
  let ?k1 = "BinomQuantile (alpha / 2) ?n quant"
  let ?k2 = "BinomQuantile (1 - alpha / 2) ?n quant"
  have lo: "binom_ppf (alpha / 2) (int ?n) quant = Fin (real ?k1)"
    using assms(1-4) by (intro binom_ppf_valid) simp_all
  have up: "binom_ppf (1 - alpha / 2) (int ?n) quant = Fin (real ?k2)"
    using assms(1-4) by (intro binom_ppf_valid) simp_all
  have k1: "?k1 \<le> ?n" by (rule BinomQuantile_le)
  have r: "quantileCI cast quant Xsample (loBound, hiBound) alpha =
      Inr ((loBound # sort Xsample @ [hiBound]) ! (1 + ?k1),
           (loBound # sort Xsample @ [hiBound]) ! (2 + ?k2))"
    using lo up k1 assms(6,5) by (rule quantileCI_in_range)
  have c1: "clamp_index ?n (1 + int ?k1) = 1 + ?k1"
    using clamp_index_id [of "1 + ?k1" ?n] k1 by simp
  have c2: "clamp_index ?n (2 + int ?k2) = 2 + ?k2"
    using clamp_index_id [of "2 + ?k2" ?n] assms(6) by simp
  have s: "quantileInterval_spec quant Xsample (loBound, hiBound) alpha =
      ((loBound # sort Xsample @ [hiBound]) ! (1 + ?k1),
       (loBound # sort Xsample @ [hiBound]) ! (2 + ?k2))"
    unfolding quantileInterval_spec_def Let_def c1 c2 by simp
  show ?thesis
    unfolding s using r order_array_eq by (intro conjI)
qed

text \<open>
  Claim C2, an instance: the median of three values, \<open>alpha = 1/2\<close>.
\<close>

theorem quantileCI_order_statistics_witness:
  "(0::real) < 1 / 2 \<and> (1 / 2 :: real) < 1
   \<and> int (length [3, 1, 2 :: real]) + 2 < 2 ^ 63
   \<and> BinomQuantile (1 - 1 / 2 / 2) (length [3, 1, 2 :: real]) (1 / 2) < length [3, 1, 2 :: real]
   \<and> quantileCI cast_x86_64 (1 / 2) [3, 1, 2] (0, 4) (1 / 2) = Inr (2, 4)"
proof -
  have h1: "(0::real) < 1 / 2" and h2: "(1 / 2 :: real) < 1"
    by simp_all
  have h5: "int (length [3, 1, 2 :: real]) + 2 < 2 ^ 63"
    by simp
  have h6: "BinomQuantile (1 - 1 / 2 / 2) (length [3, 1, 2 :: real]) (1 / 2)
      < length [3, 1, 2 :: real]"
    by code_simp
  have v: "quantileInterval_spec (1 / 2) [3, 1, 2] (0, 4) (1 / 2) = (2, 4)"
    by code_simp
  have "quantileCI cast_x86_64 (1 / 2) [3, 1, 2] (0, 4) (1 / 2)
      = Inr (quantileInterval_spec (1 / 2) [3, 1, 2] (0, 4) (1 / 2))"
    using quantileCI_order_statistics [OF h1 h2 h1 h2 h5 h6,
        where cast = cast_x86_64 and loBound = 0 and hiBound = 4]
    by (elim conjE)
  then show ?thesis
    unfolding v using h1 h2 h5 h6 by (intro conjI)
qed

text \<open>
  Claim C2 as stated fails: for two values, the median and \<open>alpha = 0.05\<close> the upper
  position is 4, one past the end of the order array; the code raises \<^verbatim>\<open>IndexError\<close> where
  clamping would give the interval \<open>[1, 3]\<close>.
\<close>

theorem quantileCI_not_clamped:
  "quantileCI cast_x86_64 (1 / 2) [1, 2] (0, 3) (1 / 20) = Inl IndexError
   \<and> quantileInterval_spec (1 / 2) [1, 2] (0, 3) (1 / 20) = (1, 3)"
  by code_simp

text \<open>
  Claim C9 at a valid call: one sample value, bracketed by the extremes, the median,
  \<open>alpha = 0.05\<close>. The upper position is \<open>2 + 1 = 3\<close> in an order array of three entries, and
  the call raises \<^verbatim>\<open>IndexError\<close> instead of returning an interval.
\<close>

theorem quantileCI_valid_call_raises:
  "(0::real) < 1 / 2 \<and> (1 / 2 :: real) < 1 \<and> (0::real) < 1 / 20 \<and> (1 / 20 :: real) < 1
   \<and> [1 :: real] \<noteq> [] \<and> (0::real) \<le> 1 \<and> (1::real) \<le> 2
   \<and> quantileCI cast_x86_64 (1 / 2) [1] (0, 2) (1 / 20) = Inl IndexError"
  by code_simp

text \<open>
  When the upper position is at most \<open>n + 1\<close>, a valid call with bracketing extremes does
  return, and the interval lies between the extremes.
\<close>

lemma sorted_order_array:
  assumes "xs \<noteq> []" and "\<forall>x \<in> set xs. a \<le> x \<and> x \<le> b"
  shows "sorted (a # sort xs @ [b])"
proof -
  from assms(1) obtain x where "x \<in> set xs" by (cases xs) auto
  with assms(2) have "a \<le> b" by force
  with assms(2) show ?thesis by (auto simp: sorted_append)
qed

lemma quantileCI_bracket:
  assumes "0 < quant" and "quant < 1" and "0 < alpha" and "alpha < 1"
    and "xs \<noteq> []" and "\<forall>x \<in> set xs. a \<le> x \<and> x \<le> b"
    and "int (length xs) + 2 < 2 ^ 63"
    and "BinomQuantile (1 - alpha / 2) (length xs) quant < length xs"
  shows "\<exists>lo hi. quantileCI cast quant xs (a, b) alpha = Inr (lo, hi) \<and> a \<le> lo \<and> lo \<le> hi \<and> hi \<le> b"
proof -
  let ?X = "a # sort xs @ [b]"
  let ?k1 = "BinomQuantile (alpha / 2) (length xs) quant"
  let ?k2 = "BinomQuantile (1 - alpha / 2) (length xs) quant"
  have lo: "binom_ppf (alpha / 2) (int (length xs)) quant = Fin (real ?k1)"
    using assms(1-4) by (intro binom_ppf_valid) simp_all
  have up: "binom_ppf (1 - alpha / 2) (int (length xs)) quant = Fin (real ?k2)"
    using assms(1-4) by (intro binom_ppf_valid) simp_all
  have k1: "?k1 \<le> length xs" by (rule BinomQuantile_le)
  have r: "quantileCI cast quant xs (a, b) alpha = Inr (?X ! (1 + ?k1), ?X ! (2 + ?k2))"
    using lo up k1 assms(8,7) by (rule quantileCI_in_range)
  have s: "sorted ?X" using assms(5,6) by (rule sorted_order_array)
  have "alpha / 2 \<le> 1 - alpha / 2" using assms(4) by simp
  then have m: "?k1 \<le> ?k2" by (rule BinomQuantile_mono)
  have len: "length ?X = length xs + 2" by simp
  have "?X ! 0 \<le> ?X ! (1 + ?k1)"
    using s by (rule sorted_nth_mono) (use k1 in simp_all)
  then have 1: "a \<le> ?X ! (1 + ?k1)" by simp
  have 2: "?X ! (1 + ?k1) \<le> ?X ! (2 + ?k2)"
    using s by (rule sorted_nth_mono) (use m assms(8) in simp_all)
  have "?X ! (2 + ?k2) \<le> ?X ! (length xs + 1)"
    using s by (rule sorted_nth_mono) (use assms(8) in simp_all)
  moreover have "?X ! (length xs + 1) = b"
    by (simp add: nth_append)
  ultimately have 3: "?X ! (2 + ?k2) \<le> b" by simp
  from r 1 2 3 show ?thesis by blast
qed

section \<open>Configurations that are not checked\<close>

lemma np_index_Inl: "np_index xs i = Inl e \<longleftrightarrow> e = IndexError \<and> \<not> in_bounds (length xs) i"
  by (auto simp: np_index_def in_bounds_def Let_def)

lemma np_index_Inr: "in_bounds (length xs) i \<Longrightarrow> \<exists>x. np_index xs i = Inr x"
  by (cases "np_index xs i") (simp_all add: np_index_Inl)

text \<open>
  Claim C5, as the code has it. Neither routine checks its configuration. \<^verbatim>\<open>binomialCI\<close>
  returns a pair of intervals whenever \<open>ntot\<close> is not zero, whatever \<open>alpha\<close> and \<open>nsuc\<close> are.
  \<^verbatim>\<open>quantileCI\<close> fails only with \<^verbatim>\<open>IndexError\<close>, and exactly when one of its two
  positions is outside the order array, whatever \<open>alpha\<close> and \<open>quant\<close> are.
\<close>

theorem no_configuration_check:
  "(ntot \<noteq> 0 \<longrightarrow> (\<exists>r. binomialCI fsolve norm_ppf ntot nsuc alpha = Inr r))
   \<and> (quantileCI cast quant Xsample extremes alpha = Inl e \<longleftrightarrow>
        e = IndexError
        \<and> \<not> (in_bounds (length Xsample + 2)
                 (astype_int cast (fadd (Fin 1) (binom_ppf (alpha / 2) (int (length Xsample)) quant)))
             \<and> in_bounds (length Xsample + 2)
                 (astype_int cast (fadd (Fin 2) (binom_ppf (1 - alpha / 2) (int (length Xsample)) quant)))))"
proof (intro conjI impI)
  assume "ntot \<noteq> 0"
  then show "\<exists>r. binomialCI fsolve norm_ppf ntot nsuc alpha = Inr r"
    by (simp add: binomialCI_result)
next
  let ?X = "order_array Xsample extremes"
  let ?i = "astype_int cast (fadd (Fin 1) (binom_ppf (alpha / 2) (int (length Xsample)) quant))"
  let ?j = "astype_int cast (fadd (Fin 2) (binom_ppf (1 - alpha / 2) (int (length Xsample)) quant))"
  have q: "quantileCI cast quant Xsample extremes alpha =
      (case np_index ?X ?i of Inl e \<Rightarrow> Inl e
       | Inr a \<Rightarrow> (case np_index ?X ?j of Inl e \<Rightarrow> Inl e | Inr b \<Rightarrow> Inr (a, b)))"
    by (simp add: quantileCI_def Let_def)
  have len: "length ?X = length Xsample + 2" by (rule length_order_array)
  show "quantileCI cast quant Xsample extremes alpha = Inl e \<longleftrightarrow>
      e = IndexError \<and> \<not> (in_bounds (length Xsample + 2) ?i \<and> in_bounds (length Xsample + 2) ?j)"
  proof (cases "np_index ?X ?i")
    case (Inl e1)
    then have "e1 = IndexError" "\<not> in_bounds (length Xsample + 2) ?i"
      by (simp_all add: np_index_Inl len)
    with Inl show ?thesis unfolding q by auto
  next
    case a: (Inr a)
    then have i: "in_bounds (length Xsample + 2) ?i"
      using np_index_Inl [of ?X ?i IndexError] by (simp add: len)
    show ?thesis
    proof (cases "np_index ?X ?j")
      case (Inl e2)
      then have "e2 = IndexError" "\<not> in_bounds (length Xsample + 2) ?j"
        by (simp_all add: np_index_Inl len)
      with a Inl show ?thesis unfolding q by auto
    next
      case (Inr b)
      then have "in_bounds (length Xsample + 2) ?j"
        using np_index_Inl [of ?X ?j IndexError] by (simp add: len)
      with a Inr i show ?thesis unfolding q by simp
    qed
  qed
qed

text \<open>
  Claim C5, two instances with an invalid configuration: \<^verbatim>\<open>binomialCI\<close> with \<open>ntot = -5\<close>,
  \<open>nsuc = 7\<close>, \<open>alpha = 3\<close>, and \<^verbatim>\<open>quantileCI\<close> with \<open>alpha = 1.6\<close>.
\<close>

theorem no_configuration_check_witness:
  "(- 5 :: int) \<noteq> 0
   \<and> (\<forall>later. \<exists>r. binomialCI (fsolve_minpack later) norm_ppf_2dp (- 5) 7 3 = Inr r)
   \<and> in_bounds (length [1, 2 :: real] + 2)
        (astype_int cast_x86_64 (fadd (Fin 1) (binom_ppf (8 / 5 / 2) (int (length [1, 2 :: real])) (1 / 2))))
   \<and> in_bounds (length [1, 2 :: real] + 2)
        (astype_int cast_x86_64 (fadd (Fin 2) (binom_ppf (1 - 8 / 5 / 2) (int (length [1, 2 :: real])) (1 / 2))))
   \<and> (\<forall>e. quantileCI cast_x86_64 (1 / 2) [1, 2] (0, 3) (8 / 5) \<noteq> Inl e)"
proof -
  have i: "in_bounds (length [1, 2 :: real] + 2)
        (astype_int cast_x86_64 (fadd (Fin 1) (binom_ppf (8 / 5 / 2) (int (length [1, 2 :: real])) (1 / 2))))"
    by code_simp
  have j: "in_bounds (length [1, 2 :: real] + 2)
        (astype_int cast_x86_64 (fadd (Fin 2) (binom_ppf (1 - 8 / 5 / 2) (int (length [1, 2 :: real])) (1 / 2))))"
    by code_simp
  note u = no_configuration_check [where cast = cast_x86_64 and quant = "1 / 2"
      and Xsample = "[1, 2]"
      and extremes = "(0, 3)" and alpha = "8 / 5"]
  have "\<exists>r. binomialCI (fsolve_minpack later) norm_ppf_2dp (- 5) 7 3 = Inr r" for later
    using no_configuration_check [where ntot = "- 5" and nsuc = 7 and alpha = 3
      and fsolve = "fsolve_minpack later" and norm_ppf = norm_ppf_2dp]
    by simp
  moreover have "quantileCI cast_x86_64 (1 / 2) [1, 2] (0, 3) (8 / 5) \<noteq> Inl e" for e
    using u [where e = e, THEN conjunct2] i j by simp
  ultimately show ?thesis using i j by simp
qed

text \<open>
  Claim C5 as stated fails: with \<open>alpha = 1.6\<close> \<^verbatim>\<open>quantileCI\<close> returns a value, the
  reversed interval \<open>[3, 2]\<close>.
\<close>

theorem quantileCI_accepts_invalid_alpha:
  "\<not> (0 < (8 / 5 :: real) \<and> (8 / 5 :: real) < 1)
   \<and> quantileCI cast_x86_64 (1 / 2) [1, 2] (0, 3) (8 / 5) = Inr (3, 2)"
  by code_simp

section \<open>The mean of a binomial distribution is a median\<close>

text \<open>
  For \<open>0 < k < n\<close> and success probability \<open>k/n\<close>, at most half of the probability lies
  strictly below \<open>k\<close> and at least half lies at or below \<open>k\<close>. For \<open>2k \<le> n\<close> the first
  half comes from pairing the probability of \<open>k - 1 - j\<close> successes with that of \<open>k + j\<close>
  successes, the second from reflecting the derivative of the distribution function about
  \<open>k/n\<close>; the case \<open>2k > n\<close> follows by exchanging successes and failures.
\<close>

lemma BinomPMF_nonneg: "0 \<le> p \<Longrightarrow> p \<le> 1 \<Longrightarrow> 0 \<le> BinomPMF i n p"
  by (simp add: BinomPMF_def)

lemma BinomCDF_Suc_PMF: "BinomCDF (Suc k) n p = BinomCDF k n p + BinomPMF (Suc k) n p"
  by (simp add: BinomCDF_def)

lemma BinomCDF_0_PMF: "BinomCDF 0 n p = BinomPMF 0 n p"
  by (simp add: BinomCDF_def)

lemma BinomPMF_reflect: "i \<le> n \<Longrightarrow> BinomPMF (n - i) n (1 - p) = BinomPMF i n p"
  by (simp add: BinomPMF_def binomial_symmetric [symmetric] mult_ac)

lemma BinomPMF_step:
  assumes "i < n"
  shows "BinomPMF (Suc i) n p * (real (Suc i) * (1 - p)) = BinomPMF i n p * (real (n - i) * p)"
proof -
  have "Suc i * (n choose Suc i) = (n - i) * (n choose i)"
    by (simp only: binomial_absorption binomial_absorb_comp)
  then have "real (Suc i * (n choose Suc i)) = real ((n - i) * (n choose i))"
    by (simp only:)
  then have c: "real (Suc i) * real (n choose Suc i) = real (n - i) * real (n choose i)"
    by (simp only: of_nat_mult)
  have e: "(1 - p) ^ (n - i) = (1 - p) ^ (n - Suc i) * (1 - p)"
    using assms by (simp add: Suc_diff_Suc flip: power_Suc2)
  have "BinomPMF (Suc i) n p * (real (Suc i) * (1 - p))
      = (real (Suc i) * real (n choose Suc i)) * (p ^ i * p) * ((1 - p) ^ (n - Suc i) * (1 - p))"
    by (simp add: BinomPMF_def mult_ac)
  also have "\<dots> = (real (n - i) * real (n choose i)) * (p ^ i * p) * (1 - p) ^ (n - i)"
    by (simp only: c e)
  also have "\<dots> = BinomPMF i n p * (real (n - i) * p)"
    by (simp add: BinomPMF_def mult_ac)
  finally show ?thesis .
qed

lemma BinomCDF_reflect:
  assumes "k < n"
  shows "BinomCDF k n p + BinomCDF (n - Suc k) n (1 - p) = 1"
  using assms
proof (induction k)
  case 0
  then obtain m where n: "n = Suc m" by (cases n) auto
  have "BinomCDF n n (1 - p) = 1" by (rule BinomCDF_full)
  then have "BinomCDF m n (1 - p) + BinomPMF n n (1 - p) = 1"
    by (simp add: n BinomCDF_Suc_PMF)
  moreover have "BinomPMF n n (1 - p) = BinomPMF 0 n p"
    using BinomPMF_reflect [of 0 n p] by simp
  ultimately show ?case
    by (simp add: n BinomCDF_0_PMF)
next
  case (Suc k)
  then have k: "k < n" by simp
  from Suc.prems obtain m where m: "n - Suc k = Suc m" "n - Suc (Suc k) = m"
    by (cases "n - Suc k") auto
  have "BinomPMF (n - Suc k) n (1 - p) = BinomPMF (Suc k) n p"
    using Suc.prems by (intro BinomPMF_reflect) simp
  then have "BinomCDF (n - Suc k) n (1 - p) = BinomCDF m n (1 - p) + BinomPMF (Suc k) n p"
    by (simp add: m BinomCDF_Suc_PMF)
  with Suc.IH [OF k] show ?case
    by (simp add: m BinomCDF_Suc_PMF)
qed

lemma BinomCDF_nonneg: "0 \<le> p \<Longrightarrow> p \<le> 1 \<Longrightarrow> 0 \<le> BinomCDF k n p"
  unfolding BinomCDF_def by (intro sum_nonneg BinomPMF_nonneg)

lemma BinomCDF_mono:
  assumes "0 \<le> p" and "p \<le> 1" and "j \<le> k"
  shows "BinomCDF j n p \<le> BinomCDF k n p"
  unfolding BinomCDF_def using assms
  by (intro sum_mono2) (auto intro: BinomPMF_nonneg)

lemma BinomCDF_le_1:
  assumes "0 \<le> p" and "p \<le> 1"
  shows "BinomCDF k n p \<le> 1"
proof (cases "k \<le> n")
  case True
  with assms have "BinomCDF k n p \<le> BinomCDF n n p" by (intro BinomCDF_mono)
  then show ?thesis by (simp add: BinomCDF_full)
next
  case False
  then show ?thesis by (simp add: BinomCDF_beyond)
qed

lemma pairing_numbers:
  fixes K M J :: real
  assumes "0 \<le> K" and "K \<le> M" 
  shows "(K - J) * (K + J) * M\<^sup>2 \<le> (M + 1 - J) * (M + 1 + J) * K\<^sup>2"
proof -
  have "K\<^sup>2 \<le> M\<^sup>2" using assms by (intro power_mono)
  then have "0 \<le> J\<^sup>2 * (M\<^sup>2 - K\<^sup>2)" by simp
  moreover have "0 \<le> K\<^sup>2 * (2 * M + 1)" using assms by simp
  moreover have "(M + 1 - J) * (M + 1 + J) * K\<^sup>2 - (K - J) * (K + J) * M\<^sup>2
      = K\<^sup>2 * (2 * M + 1) + J\<^sup>2 * (M\<^sup>2 - K\<^sup>2)"
    by (simp add: algebra_simps power2_eq_square)
  ultimately show ?thesis by linarith
qed

lemma BinomPMF_pairing:
  assumes "0 < k" and "2 * k \<le> n" and "j < k"
  shows "BinomPMF (k - Suc j) n (real k / real n) \<le> BinomPMF (k + j) n (real k / real n)"
  using assms(3)
proof (induction j)
  case 0
  let ?p = "real k / real n"
  from assms obtain k' where k': "k = Suc k'" by (cases k) auto
  have n: "0 < real n" using assms by simp
  have kn: "k' < n" using assms k' by simp
  have p: "0 \<le> ?p" "?p \<le> 1" using assms by simp_all
  have q: "1 - ?p = real (n - k) / real n"
    using assms n by (simp add: field_simps of_nat_diff)
  have "BinomPMF (Suc k') n ?p * (real (Suc k') * (1 - ?p)) = BinomPMF k' n ?p * (real (n - k') * ?p)"
    using kn by (rule BinomPMF_step)
  then have "BinomPMF k n ?p * (real k * (real (n - k) / real n))
      = BinomPMF k' n ?p * (real (n - k') * (real k / real n))"
    by (simp only: k' [symmetric] q)
  then have "BinomPMF k n ?p * real (n - k) = BinomPMF k' n ?p * real (n - k')"
    using n assms(1) by (simp add: field_simps)
  moreover have "real (n - k') = real (n - k) + 1"
    using kn k' by (simp add: of_nat_diff)
  moreover have "0 \<le> BinomPMF k n ?p" using p by (rule BinomPMF_nonneg)
  ultimately have "BinomPMF k' n ?p * (real (n - k) + 1) \<le> BinomPMF k n ?p * (real (n - k) + 1)"
    by (simp add: algebra_simps)
  then have "BinomPMF k' n ?p \<le> BinomPMF k n ?p"
    by (rule mult_right_le_imp_le) simp
  then show ?case by (simp add: k')
next
  case (Suc j)
  let ?p = "real k / real n"
  let ?q = "real (n - k) / real n"
  define u where "u = BinomPMF (k + j) n ?p"
  define v where "v = BinomPMF (k - Suc j) n ?p"
  define u' where "u' = BinomPMF (k + Suc j) n ?p"
  define v' where "v' = BinomPMF (k - Suc (Suc j)) n ?p"
  define K where "K = real k"
  define M where "M = real (n - k)"
  define J where "J = real (Suc j)"
  from Suc.prems have j: "j < k" by simp
  have ih: "v \<le> u" unfolding u_def v_def using j by (rule Suc.IH)
  have n: "0 < real n" using assms by simp
  have p: "0 \<le> ?p" "?p \<le> 1" using assms by simp_all
  have q: "1 - ?p = ?q"
    using assms n by (simp add: field_simps of_nat_diff)
  have KM: "0 < K" "K \<le> M" "J < K" "0 < J"
    using assms Suc.prems by (simp_all add: K_def M_def J_def)
  have pq: "?p = K / real n" "?q = M / real n" by (simp_all add: K_def M_def)
  have u0: "0 \<le> u" and v0: "0 \<le> v" and u'0: "0 \<le> u'" and v'0: "0 \<le> v'"
    unfolding u_def v_def u'_def v'_def using p by (simp_all add: BinomPMF_nonneg)
  have "k + j < n" using assms Suc.prems by simp
  then have "BinomPMF (Suc (k + j)) n ?p * (real (Suc (k + j)) * (1 - ?p))
      = BinomPMF (k + j) n ?p * (real (n - (k + j)) * ?p)"
    by (rule BinomPMF_step)
  moreover have "real (Suc (k + j)) = K + J" by (simp add: K_def J_def)
  moreover have "real (n - (k + j)) = M + 1 - J"
    using \<open>k + j < n\<close> assms by (simp add: M_def J_def of_nat_diff)
  ultimately have U: "u' * ((K + J) * ?q) = u * ((M + 1 - J) * ?p)"
    by (simp add: u_def u'_def q)
  obtain i where i: "k - Suc (Suc j) = i" "k - Suc j = Suc i"
    using Suc.prems by (cases "k - Suc j") auto
  have "i < n" using i assms by simp
  then have "BinomPMF (Suc i) n ?p * (real (Suc i) * (1 - ?p)) = BinomPMF i n ?p * (real (n - i) * ?p)"
    by (rule BinomPMF_step)
  moreover have "real (Suc i) = K - J"
    using i(2) Suc.prems by (simp add: K_def J_def of_nat_diff flip: i(2))
  moreover have "real (n - i) = M + 1 + J"
  proof -
    have "n - i = (n - k) + Suc (Suc j)" using i(1) Suc.prems assms by simp
    then show ?thesis by (simp add: M_def J_def)
  qed
  ultimately have V: "v * ((K - J) * ?q) = v' * ((M + 1 + J) * ?p)"
    by (simp add: v_def v'_def q i)
  have num: "(K - J) * (K + J) * M\<^sup>2 \<le> (M + 1 - J) * (M + 1 + J) * K\<^sup>2"
    using KM by (intro pairing_numbers) simp_all
  have c0: "0 \<le> (K - J) * (K + J) * M\<^sup>2" using KM by simp
  have "v' * ((M + 1 + J) * ?p) * ((K + J) * ?q) = v * ((K - J) * ?q) * ((K + J) * ?q)"
    by (simp only: V)
  also have "\<dots> = v * ((K - J) * (K + J) * M\<^sup>2) / (real n)\<^sup>2"
    by (simp add: pq power2_eq_square)
  also have "\<dots> \<le> u * ((M + 1 - J) * (M + 1 + J) * K\<^sup>2) / (real n)\<^sup>2"
  proof (rule divide_right_mono)
    show "v * ((K - J) * (K + J) * M\<^sup>2) \<le> u * ((M + 1 - J) * (M + 1 + J) * K\<^sup>2)"
      using ih num u0 c0 by (rule mult_mono)
    show "0 \<le> (real n)\<^sup>2" by simp
  qed
  also have "\<dots> = u * ((M + 1 - J) * ?p) * ((M + 1 + J) * ?p)"
    by (simp add: pq power2_eq_square)
  also have "\<dots> = u' * ((K + J) * ?q) * ((M + 1 + J) * ?p)"
    by (simp only: U)
  finally have "v' * (((M + 1 + J) * ?p) * ((K + J) * ?q)) \<le> u' * (((M + 1 + J) * ?p) * ((K + J) * ?q))"
    by (simp add: mult_ac)
  moreover have "0 < ((M + 1 + J) * ?p) * ((K + J) * ?q)"
    using KM n by (simp add: pq)
  ultimately have "v' \<le> u'" by (rule mult_right_le_imp_le)
  then show ?case by (simp add: u'_def v'_def)
qed

lemma BinomCDF_below_mean:
  assumes "0 < k" and "2 * k \<le> n"
  shows "BinomCDF (k - 1) n (real k / real n) \<le> 1 / 2"
proof -
  let ?p = "real k / real n"
  let ?f = "\<lambda>i. BinomPMF i n ?p"
  have p: "0 \<le> ?p" "?p \<le> 1" using assms by simp_all
  from assms obtain k' where k': "k = Suc k'" by (cases k) auto
  have cdf: "BinomCDF (k - 1) n ?p = sum ?f {0..<k}"
    by (simp add: BinomCDF_def k' atLeast0LessThan lessThan_Suc_atMost)
  have "(\<Sum>j<k. ?f (k - Suc j)) = sum ?f {..<k}"
    by (rule sum.nat_diff_reindex)
  then have "sum ?f {0..<k} = (\<Sum>j<k. ?f (k - Suc j))"
    by (simp add: atLeast0LessThan)
  also have "\<dots> \<le> (\<Sum>j<k. ?f (k + j))"
    using assms by (intro sum_mono BinomPMF_pairing) simp_all
  also have "\<dots> = sum ?f {k..<2 * k}"
    using sum.shift_bounds_nat_ivl [of ?f 0 k k]
    by (simp add: atLeast0LessThan add.commute mult_2)
  finally have half: "sum ?f {0..<k} \<le> sum ?f {k..<2 * k}" .
  have "sum ?f {0..<k} + sum ?f {k..<2 * k} = sum ?f {0..<2 * k}"
    by (rule sum.atLeastLessThan_concat) simp_all
  also have "\<dots> \<le> sum ?f {..n}"
    using assms p by (intro sum_mono2) (auto intro: BinomPMF_nonneg)
  also have "\<dots> = 1"
    using BinomCDF_full [of n ?p] by (simp add: BinomCDF_def)
  finally have "sum ?f {0..<k} + sum ?f {k..<2 * k} \<le> 1" .
  with half show ?thesis unfolding cdf by linarith
qed

lemma reflect_slope:
  fixes c x K M :: real
  assumes c: "0 < c" "2 * c \<le> 1" and x: "0 \<le> x" "x < c"
    and K: "0 \<le> K" and M: "0 \<le> M" and KM: "M * c \<le> K * (1 - c)"
  shows "M / (1 - c - x) + M / (1 - c + x) \<le> K / (c + x) + K / (c - x)"
proof -
  have pos: "0 < c - x" "0 < c + x" "0 < 1 - c - x" "0 < 1 - c + x"
    using c x by simp_all
  have v: "x\<^sup>2 \<le> c\<^sup>2" "c\<^sup>2 \<le> (1 - c)\<^sup>2"
    using c x by (intro power_mono; simp)+
  have d1: "0 < c\<^sup>2 - x\<^sup>2" 
  proof -
    have "c\<^sup>2 - x\<^sup>2 = (c - x) * (c + x)" by (simp add: power2_eq_square algebra_simps)
    with pos show ?thesis by simp
  qed
  have d2: "0 < (1 - c)\<^sup>2 - x\<^sup>2"
  proof -
    have "(1 - c)\<^sup>2 - x\<^sup>2 = (1 - c - x) * (1 - c + x)" by (simp add: power2_eq_square algebra_simps)
    with pos show ?thesis by simp
  qed
  have L: "M / (1 - c - x) + M / (1 - c + x) = 2 * M * (1 - c) / ((1 - c)\<^sup>2 - x\<^sup>2)"
    using pos d2 by (simp add: field_simps power2_eq_square)
  have R: "K / (c + x) + K / (c - x) = 2 * K * c / (c\<^sup>2 - x\<^sup>2)"
    using pos d1 by (simp add: field_simps power2_eq_square)
  have key: "M * (1 - c) * (c\<^sup>2 - x\<^sup>2) \<le> K * c * ((1 - c)\<^sup>2 - x\<^sup>2)"
  proof (cases "K * c \<le> M * (1 - c)")
    case True
    have "M * (1 - c) * (c\<^sup>2 - x\<^sup>2) = M * (1 - c) * c\<^sup>2 - (M * (1 - c)) * x\<^sup>2"
      by (simp add: algebra_simps)
    also have "\<dots> \<le> M * (1 - c) * c\<^sup>2 - (K * c) * x\<^sup>2"
      using True by (simp add: mult_right_mono)
    also have "M * (1 - c) * c\<^sup>2 = (M * c) * (c * (1 - c))"
      by (simp add: power2_eq_square algebra_simps)
    also have "(M * c) * (c * (1 - c)) \<le> (K * (1 - c)) * (c * (1 - c))"
      using KM c by (intro mult_right_mono) simp_all
    also have "(K * (1 - c)) * (c * (1 - c)) - (K * c) * x\<^sup>2 = K * c * ((1 - c)\<^sup>2 - x\<^sup>2)"
      by (simp add: power2_eq_square algebra_simps)
    finally show ?thesis by simp
  next
    case False
    then have lt: "M * (1 - c) \<le> K * c" by simp
    have "M * (1 - c) * (c\<^sup>2 - x\<^sup>2) \<le> K * c * (c\<^sup>2 - x\<^sup>2)"
      using lt d1 by (intro mult_right_mono) simp_all
    also have "\<dots> \<le> K * c * ((1 - c)\<^sup>2 - x\<^sup>2)"
      using v K c by (intro mult_left_mono) simp_all
    finally show ?thesis .
  qed
  have "2 * M * (1 - c) / ((1 - c)\<^sup>2 - x\<^sup>2) \<le> 2 * K * c / (c\<^sup>2 - x\<^sup>2)"
    using key d1 d2 by (simp add: field_simps)
  then show ?thesis by (simp only: L R)
qed

lemma ln_power_product:
  fixes a b :: real
  assumes "0 < a" and "0 < b"
  shows "ln (a ^ k * b ^ m) = real k * ln a + real m * ln b"
  using assms by (simp add: ln_mult ln_realpow)

lemma density_reflect:
  fixes c s :: real
  assumes c: "0 < c" "2 * c \<le> 1" and s: "0 \<le> s" "s \<le> c" and k: "0 < k"
    and KM: "real m * c \<le> real k * (1 - c)"
  shows "(c - s) ^ k * (1 - c + s) ^ m \<le> (c + s) ^ k * (1 - c - s) ^ m"
proof (cases "s = c")
  case True
  have "0 \<le> (c + c) ^ k * (1 - c - c) ^ m"
    using c by (intro mult_nonneg_nonneg zero_le_power) simp_all
  moreover have "(c - c) ^ k * (1 - c + c) ^ m = 0"
    using k by simp
  ultimately show ?thesis unfolding True by (simp only:)
next
  case False
  with s have sc: "s < c" by simp
  define g where "g x = real k * ln (c + x) + real m * ln (1 - c - x)
      - (real k * ln (c - x) + real m * ln (1 - c + x))" for x
  have "g 0 \<le> g s"
  proof (rule DERIV_nonneg_imp_nondecreasing [OF s(1)])
    fix x assume x: "0 \<le> x" "x \<le> s"
    with sc have xc: "x < c" by simp
    have pos: "0 < c - x" "0 < c + x" "0 < 1 - c - x" "0 < 1 - c + x"
      using c x xc by simp_all
    have d: "(g has_real_derivative
        (real k / (c + x) + real m * (- 1) / (1 - c - x)
          - (real k * (- 1) / (c - x) + real m / (1 - c + x)))) (at x)"
      unfolding g_def using pos
      by (auto intro!: derivative_eq_intros simp: field_simps)
    have "real m / (1 - c - x) + real m / (1 - c + x) \<le> real k / (c + x) + real k / (c - x)"
      using c x(1) xc _ _ KM by (rule reflect_slope) simp_all
    then have "0 \<le> real k / (c + x) + real m * (- 1) / (1 - c - x)
          - (real k * (- 1) / (c - x) + real m / (1 - c + x))"
      by simp
    with d show "\<exists>y. (g has_real_derivative y) (at x) \<and> 0 \<le> y" by blast
  qed
  then have "real k * ln (c - s) + real m * ln (1 - c + s)
      \<le> real k * ln (c + s) + real m * ln (1 - c - s)"
    using c by (simp add: g_def)
  moreover have pos: "0 < c - s" "0 < c + s" "0 < 1 - c - s" "0 < 1 - c + s"
    using c s sc by simp_all
  ultimately have "ln ((c - s) ^ k * (1 - c + s) ^ m) \<le> ln ((c + s) ^ k * (1 - c - s) ^ m)"
    by (simp only: ln_power_product)
  moreover have "0 < (c - s) ^ k * (1 - c + s) ^ m" "0 < (c + s) ^ k * (1 - c - s) ^ m"
    using pos by simp_all
  ultimately show ?thesis by (simp only: ln_le_cancel_iff)
qed

lemma BinomCDF_above_mean:
  assumes "0 < k" and "2 * k \<le> n"
  shows "1 / 2 \<le> BinomCDF k n (real k / real n)"
proof -
  define c where "c = real k / real n"
  from assms have "k < n" by simp
  then obtain m where n: "n = Suc (k + m)"
    using less_imp_Suc_add by blast
  define C where "C = real n * real ((k + m) choose k)"
  define A where "A s = BinomCDF k n (c - s) + BinomCDF k n (c + s)" for s
  have c: "0 < c" "2 * c \<le> 1"
    using assms by (simp_all add: c_def field_simps)
  have C: "0 \<le> C" by (simp add: C_def)
  have KM: "real m * c \<le> real k * (1 - c)"
  proof -
    have "real m * c \<le> real (n - k) * c"
      using c n by (intro mult_right_mono) simp_all
    also have "\<dots> = real k * (1 - c)"
      using \<open>k < n\<close> by (simp add: c_def of_nat_diff field_simps)
    finally show ?thesis .
  qed
  have "A c \<le> A 0"
  proof (rule DERIV_nonpos_imp_nonincreasing [of 0 c A])
    show "0 \<le> c" using c by simp
  next
    fix s assume s: "0 \<le> s" "s \<le> c"
    have 1: "((\<lambda>s. BinomCDF k n (c - s)) has_real_derivative
        - (C * (c - s) ^ k * (1 - (c - s)) ^ m) * (- 1)) (at s)"
      unfolding n C_def
      by (rule DERIV_chain2 [OF BinomCDF_deriv]) (auto intro!: derivative_eq_intros)
    have 2: "((\<lambda>s. BinomCDF k n (c + s)) has_real_derivative
        - (C * (c + s) ^ k * (1 - (c + s)) ^ m) * 1) (at s)"
      unfolding n C_def
      by (rule DERIV_chain2 [OF BinomCDF_deriv]) (auto intro!: derivative_eq_intros)
    have d: "(A has_real_derivative
        (- (C * (c - s) ^ k * (1 - (c - s)) ^ m) * (- 1)
         + - (C * (c + s) ^ k * (1 - (c + s)) ^ m) * 1)) (at s)"
      unfolding A_def using 1 2 by (rule DERIV_add)
    have "(c - s) ^ k * (1 - c + s) ^ m \<le> (c + s) ^ k * (1 - c - s) ^ m"
      using c s assms(1) KM by (rule density_reflect)
    then have "C * ((c - s) ^ k * (1 - c + s) ^ m) \<le> C * ((c + s) ^ k * (1 - c - s) ^ m)"
      using C by (rule mult_left_mono)
    moreover have "1 - c + s = 1 - (c - s)" "1 - c - s = 1 - (c + s)" by simp_all
    ultimately have "C * ((c - s) ^ k * (1 - (c - s)) ^ m) \<le> C * ((c + s) ^ k * (1 - (c + s)) ^ m)"
      by (simp only:)
    then have "- (C * (c - s) ^ k * (1 - (c - s)) ^ m) * (- 1)
         + - (C * (c + s) ^ k * (1 - (c + s)) ^ m) * 1 \<le> 0"
      by (simp only: mult.assoc)
    with d show "\<exists>y. (A has_real_derivative y) (at s) \<and> y \<le> 0" by blast
  qed
  moreover have "A 0 = 2 * BinomCDF k n c" by (simp add: A_def)
  moreover have "A c = 1 + BinomCDF k n (2 * c)" by (simp add: A_def BinomCDF_at_0)
  moreover have "0 \<le> BinomCDF k n (2 * c)"
    using c by (intro BinomCDF_nonneg) simp_all
  ultimately show ?thesis unfolding c_def by linarith
qed

lemma BinomCDF_median:
  assumes "0 < k" and "k < n"
  shows "BinomCDF (k - 1) n (real k / real n) \<le> 1 / 2 \<and> 1 / 2 \<le> BinomCDF k n (real k / real n)"
proof (cases "2 * k \<le> n")
  case True
  with assms(1) show ?thesis
    by (intro conjI BinomCDF_below_mean BinomCDF_above_mean)
next
  case False
  define k' where "k' = n - k"
  have k': "0 < k'" "2 * k' \<le> n" "k' < n"
    using assms False by (simp_all add: k'_def)
  have c: "1 - real k / real n = real k' / real n"
    using assms by (simp add: k'_def of_nat_diff field_simps)
  have "BinomCDF (k - 1) n (real k / real n) + BinomCDF (n - Suc (k - 1)) n (1 - real k / real n) = 1"
    using assms by (intro BinomCDF_reflect) simp
  moreover have "n - Suc (k - 1) = k'" using assms by (simp add: k'_def)
  moreover have "1 / 2 \<le> BinomCDF k' n (real k' / real n)"
    using k'(1,2) by (rule BinomCDF_above_mean)
  ultimately have 1: "BinomCDF (k - 1) n (real k / real n) \<le> 1 / 2"
    by (simp add: c)
  have "BinomCDF k n (real k / real n) + BinomCDF (n - Suc k) n (1 - real k / real n) = 1"
    using assms(2) by (rule BinomCDF_reflect)
  moreover have "n - Suc k = k' - 1" by (simp add: k'_def)
  moreover have "BinomCDF (k' - 1) n (real k' / real n) \<le> 1 / 2"
    using k'(1,2) by (rule BinomCDF_below_mean)
  ultimately have 2: "1 / 2 \<le> BinomCDF k n (real k / real n)"
    by (simp add: c)
  from 1 2 show ?thesis ..
qed

lemma BinomCDF_decreasing:
  assumes "k < n" and "0 \<le> a" and "a \<le> b" and "b \<le> 1"
  shows "BinomCDF k n b \<le> BinomCDF k n a"
proof (cases "a = b")
  case True
  then show ?thesis by simp
next
  case False
  with assms have "BinomCDF k n b < BinomCDF k n a"
    by (intro BinomCDF_strict_decreasing) simp_all
  then show ?thesis by simp
qed

lemma lower_root_below_mean:
  assumes "0 < k" and "k < n" and "0 < p" and "p < 1" and "alpha < 1"
    and "BinomCDF (k - 1) n p = 1 - alpha / 2"
  shows "p < real k / real n"
proof (rule ccontr)
  assume "\<not> p < real k / real n"
  then have "real k / real n \<le> p" by simp
  moreover have "k - 1 < n" using assms by simp
  ultimately have "BinomCDF (k - 1) n p \<le> BinomCDF (k - 1) n (real k / real n)"
    using assms(4) by (intro BinomCDF_decreasing) simp_all
  also have "\<dots> \<le> 1 / 2" using BinomCDF_median [OF assms(1,2)] ..
  finally show False using assms(5,6) by simp
qed

lemma upper_root_above_mean:
  assumes "0 < k" and "k < n" and "0 < p" and "p < 1" and "alpha < 1"
    and "BinomCDF k n p = alpha / 2"
  shows "real k / real n < p"
proof (rule ccontr)
  assume "\<not> real k / real n < p"
  then have "p \<le> real k / real n" by simp
  then have "BinomCDF k n (real k / real n) \<le> BinomCDF k n p"
    using assms(2,3) by (intro BinomCDF_decreasing) simp_all
  moreover have "1 / 2 \<le> BinomCDF k n (real k / real n)"
    using BinomCDF_median [OF assms(1,2)] ..
  ultimately show False using assms(5,6) by simp
qed

section \<open>The exact interval brackets the observed proportion\<close>

text \<open>
  When the solver delivers a root in \<open>(0, 1)\<close> of each function it is given, the exact
  interval \<open>[lo, hi]\<close> of a valid call satisfies \<open>0 \<le> lo \<le> nsuc/ntot \<le> hi \<le> 1\<close>, with \<open>lo = 0\<close>
  exactly when \<open>nsuc = 0\<close> and \<open>hi = 1\<close> exactly when \<open>nsuc = ntot\<close>: the roots lie on either
  side of the observed proportion because the mean of a binomial distribution is a median.
\<close>

lemma binomialCI_brackets_of_roots:
  assumes "0 < ntot" and "0 \<le> nsuc" and "nsuc \<le> ntot" and "0 < alpha" and "alpha < 1"
    and "nsuc \<noteq> 0 \<Longrightarrow> root_in_unit (lower_equation nsuc ntot (alpha / 2))
           (fsolve (lower_equation nsuc ntot (alpha / 2)) (real_of_int nsuc / real_of_int ntot))"
    and "nsuc \<noteq> ntot \<Longrightarrow> root_in_unit (upper_equation nsuc ntot (alpha / 2))
           (fsolve (upper_equation nsuc ntot (alpha / 2)) (real_of_int nsuc / real_of_int ntot))"
  shows "\<exists>lo hi clt.
           binomialCI fsolve norm_ppf ntot nsuc alpha = Inr ((Fin lo, Fin hi), clt)
         \<and> 0 \<le> lo \<and> lo \<le> real_of_int nsuc / real_of_int ntot
         \<and> real_of_int nsuc / real_of_int ntot \<le> hi \<and> hi \<le> 1
         \<and> (lo = 0 \<longleftrightarrow> nsuc = 0) \<and> (hi = 1 \<longleftrightarrow> nsuc = ntot)"
proof -
  let ?obs = "real_of_int nsuc / real_of_int ntot"
  let ?lo = "if nsuc = 0 then Fin 0 else fsolve (lower_equation nsuc ntot (alpha / 2)) ?obs"
  let ?hi = "if nsuc = ntot then Fin 1 else fsolve (upper_equation nsuc ntot (alpha / 2)) ?obs"
  define k where "k = nat nsuc"
  define n where "n = nat ntot"
  have kn: "k \<le> n" "0 < n" and obs: "?obs = real k / real n"
    using assms(1-3) by (simp_all add: k_def n_def)
  have obs01: "0 \<le> ?obs" "?obs \<le> 1" using assms(1-3) by simp_all
  from assms(1) have "ntot \<noteq> 0" by simp
  from binomialCI_exact [OF this, of fsolve norm_ppf nsuc alpha]
  obtain clt where r: "binomialCI fsolve norm_ppf ntot nsuc alpha = Inr ((?lo, ?hi), clt)" ..
  have lo: "\<exists>lo. ?lo = Fin lo \<and> 0 \<le> lo \<and> lo \<le> ?obs \<and> (lo = 0 \<longleftrightarrow> nsuc = 0)"
  proof (cases "nsuc = 0")
    case True
    then show ?thesis by simp
  next
    case False
    with assms(2) have 1: "1 \<le> nsuc" by simp
    from lower_root [OF assms(1) 1 assms(3) assms(6) [OF False]]
    obtain p where p: "fsolve (lower_equation nsuc ntot (alpha / 2)) ?obs = Fin p"
      "0 < p" "p < 1" and e: "BinomCDF (nat (nsuc - 1)) (nat ntot) p = 1 - alpha / 2"
      by blast
    have k1: "nat (nsuc - 1) = k - 1" by (simp add: k_def)
    have k0: "0 < k" using 1 by (simp add: k_def)
    have "p \<le> ?obs"
    proof (cases "k = n")
      case True
      then show ?thesis using p(3) kn by (simp add: obs)
    next
      case ne: False
      with kn have "k < n" by simp
      with k0 have "p < real k / real n"
        using p(2,3) assms(5) e unfolding k1 n_def [symmetric]
        by (rule lower_root_below_mean)
      then show ?thesis by (simp add: obs)
    qed
    with p False show ?thesis by simp
  qed
  have hi: "\<exists>hi. ?hi = Fin hi \<and> ?obs \<le> hi \<and> hi \<le> 1 \<and> (hi = 1 \<longleftrightarrow> nsuc = ntot)"
  proof (cases "nsuc = ntot")
    case True
    then show ?thesis using assms(1) by simp
  next
    case False
    with assms(3) have 1: "nsuc < ntot" by simp
    from upper_root [OF assms(1,2) 1 assms(7) [OF False]]
    obtain p where p: "fsolve (upper_equation nsuc ntot (alpha / 2)) ?obs = Fin p"
      "0 < p" "p < 1" and e: "BinomCDF (nat nsuc) (nat ntot) p = alpha / 2"
      by blast
    have kn': "k < n" using 1 assms(2) by (simp add: k_def n_def)
    have "?obs \<le> p"
    proof (cases "k = 0")
      case True
      then show ?thesis using p(2) by (simp add: obs)
    next
      case ne: False
      then have "0 < k" by simp
      then have "real k / real n < p"
        using kn' p(2,3) assms(5) e unfolding k_def [symmetric] n_def [symmetric]
        by (rule upper_root_above_mean)
      then show ?thesis by (simp add: obs)
    qed
    with p False show ?thesis by simp
  qed
  from lo obtain l where l: "?lo = Fin l" "0 \<le> l" "l \<le> ?obs" "l = 0 \<longleftrightarrow> nsuc = 0"
    by blast
  from hi obtain h where h: "?hi = Fin h" "?obs \<le> h" "h \<le> 1" "h = 1 \<longleftrightarrow> nsuc = ntot"
    by blast
  from r have "binomialCI fsolve norm_ppf ntot nsuc alpha = Inr ((Fin l, Fin h), clt)"
    by (simp only: l(1) h(1))
  with l(2-4) h(2-4) show ?thesis by blast
qed

end
